theory Spec2Isabelle
  imports Complex_Main "HOL-Library.Multiset" "HOL-Library.Monad_Syntax"
begin

section \<open>Scagnostics core of chart-advisor: a shallow embedding\<close>

text \<open>
  The development follows the TypeScript sources of the scagnostics pipeline:
  \<^verbatim>\<open>findScag/util.ts\<close> (selection and quantiles), the grapher module (graph
  construction, minimum spanning tree, fan triangulation, hulls) and the entry point
  \<^verbatim>\<open>scagScorer\<close>.

  Conventions of the embedding.
  \<^item> A JavaScript number is a \<open>real\<close>; array indices and loop counters that the source
    keeps integral are \<open>int\<close> (they may become negative). The quantile routines branch
    on a product of doubles, so their arithmetic is rounded to the nearest double
    (\<open>to_double\<close>); elsewhere arithmetic is exact. NaN and the infinities are outside the
    model.
  \<^item> An exception is a value of \<open>js_error\<close>; a function that may throw returns
    \<open>js_error + 'a\<close>.
  \<^item> A loop that may run forever is a \<^theory_text>\<open>partial_function (option)\<close>; not
    returning is the value \<open>None\<close>.
  \<^item> A read or write at an index outside an array is also \<open>None\<close> in the selection
    routines: the source would read \<^verbatim>\<open>undefined\<close> or grow the array there, and the
    model makes no statement about what follows.
  \<^item> Arrays that are mutated in place live in a store of arrays (\<open>heap\<close>) wherever
    aliasing matters.
\<close>

datatype js_error = Error string | TypeError

subsection \<open>Numbers: rounding to a double\<close>

text \<open>
  The result of an arithmetic operation on doubles is the exact result rounded to the
  nearest double, ties to the even significand. A double is \<open>m * 2 ^ e\<close> with
  \<open>\<bar>m\<bar> < 2 ^ 53\<close> and \<open>e \<ge> -1074\<close>; around \<open>v\<close>, with \<open>2 ^ E \<le> \<bar>v\<bar> < 2 ^ (E + 1)\<close>, the
  doubles are the multiples of \<open>2 ^ max (E - 52) (-1074)\<close>. A result of magnitude
  \<open>2 ^ 1024\<close> or more is an infinity in JavaScript and outside the model.
\<close>

definition round_half_even :: "real \<Rightarrow> int" where
  "round_half_even v =
    (let f = \<lfloor>v\<rfloor> in
     if v - of_int f < 1 / 2 then f
     else if 1 / 2 < v - of_int f then f + 1
     else if even f then f
     else f + 1)"

definition ulp_exponent :: "real \<Rightarrow> int" where
  "ulp_exponent v = max (\<lfloor>log 2 \<bar>v\<bar>\<rfloor> - 52) (- 1074)"

definition to_double :: "real \<Rightarrow> real" where
  "to_double v =
    (if v = 0 then 0
     else of_int (round_half_even (v / 2 powi ulp_exponent v)) * 2 powi ulp_exponent v)"

text \<open>The operators \<^verbatim>\<open>*\<close>, \<^verbatim>\<open>+\<close> and \<^verbatim>\<open>/\<close> on doubles.\<close>

definition js_times :: "real \<Rightarrow> real \<Rightarrow> real" where
  "js_times a b = to_double (a * b)"

definition js_plus :: "real \<Rightarrow> real \<Rightarrow> real" where
  "js_plus a b = to_double (a + b)"

definition js_divide :: "real \<Rightarrow> real \<Rightarrow> real" where
  "js_divide a b = to_double (a / b)"

subsection \<open>util.ts: quickselect\<close>

definition in_bounds :: "'a list \<Rightarrow> int \<Rightarrow> bool" where
  "in_bounds arr i = (0 \<le> i \<and> i < int (length arr))"

text \<open>\<^verbatim>\<open>swap(arr, i, j)\<close>: \<^verbatim>\<open>tmp = arr[i]; arr[i] = arr[j]; arr[j] = tmp\<close>.\<close>

definition swap :: "real list \<Rightarrow> int \<Rightarrow> int \<Rightarrow> real list option" where
  "swap arr i j =
    (if in_bounds arr i \<and> in_bounds arr j
     then Some (arr[nat i := arr ! nat j, nat j := arr ! nat i])
     else None)"

text \<open>
  \<^verbatim>\<open>while (arr[i] < t) i++\<close> and \<^verbatim>\<open>while (arr[j] > t) j--\<close>. A read outside the array
  is \<^verbatim>\<open>undefined\<close>, every comparison with it is false, and the scan stops there.
\<close>

function scan_up :: "real list \<Rightarrow> real \<Rightarrow> int \<Rightarrow> int" where
  "scan_up arr t i = (if in_bounds arr i \<and> arr ! nat i < t then scan_up arr t (i + 1) else i)"
  by pat_completeness auto
termination
  by (relation "measure (\<lambda>(arr, t, i). nat (int (length arr) - i))") (auto simp: in_bounds_def)

function scan_down :: "real list \<Rightarrow> real \<Rightarrow> int \<Rightarrow> int" where
  "scan_down arr t j = (if in_bounds arr j \<and> arr ! nat j > t then scan_down arr t (j - 1) else j)"
  by pat_completeness auto
termination
  by (relation "measure (\<lambda>(arr, t, j). nat (j + 1))") (auto simp: in_bounds_def)

declare scan_up.simps [simp del] scan_down.simps [simp del]

text \<open>
  The inner loop of one pass:
  \<^verbatim>\<open>while (i < j) { swap(arr, i, j); i++; j--; while (arr[i] < t) i++; while (arr[j] > t) j--; }\<close>
\<close>

function hoare_loop :: "real list \<Rightarrow> real \<Rightarrow> int \<Rightarrow> int \<Rightarrow> (real list \<times> int \<times> int) option" where
  "hoare_loop arr t i j =
    (if i < j then
       (case swap arr i j of
          None \<Rightarrow> None
        | Some arr' \<Rightarrow> hoare_loop arr' t (scan_up arr' t (i + 1)) (scan_down arr' t (j - 1)))
     else Some (arr, i, j))"
  by pat_completeness auto
termination
proof (relation "measure (\<lambda>(arr, t, i, j). nat (j - i))", goal_cases)
  case 1
  show ?case by simp
next
  case (2 arr t i j arr')
  have up: "a \<le> scan_up xs v a" for xs v a
    by (induction xs v a rule: scan_up.induct) (subst scan_up.simps, auto)
  have down: "scan_down xs v a \<le> a" for xs v a
    by (induction xs v a rule: scan_down.induct) (subst scan_down.simps, auto)
  from up [of "i + 1" arr' t] down [of arr' t "j - 1"] 2 show ?case by simp
qed

declare hoare_loop.simps [simp del]

text \<open>
  One pass of the outer loop after the optional recursive call: choose the pivot
  \<^verbatim>\<open>t = arr[k]\<close>, move it to the left end, partition, and put it to its final place
  \<open>j\<close>. The pass returns the array and \<open>j\<close>.
\<close>

definition partition_pass :: "real list \<Rightarrow> int \<Rightarrow> int \<Rightarrow> int \<Rightarrow> (real list \<times> int) option" where
  "partition_pass arr k left right =
    (if \<not> in_bounds arr k then None
     else do {
       let t = arr ! nat k;
       a1 \<leftarrow> swap arr left k;
       a2 \<leftarrow> (if \<not> in_bounds a1 right then None
              else if a1 ! nat right > t then swap a1 left right else Some a1);
       (a3, i, j) \<leftarrow> hoare_loop a2 t left right;
       if a3 ! nat left = t
       then do { a4 \<leftarrow> swap a3 left j; Some (a4, j) }
       else do { a4 \<leftarrow> swap a3 (j + 1) right; Some (a4, j + 1) }
     })"

text \<open>\<^verbatim>\<open>a || b\<close> on numbers: \<open>0\<close> is falsy.\<close>

definition js_or :: "int \<Rightarrow> int \<Rightarrow> int" where
  "js_or a b = (if a = 0 then b else a)"

text \<open>
  The sub-range of the Floyd-Rivest step, taken when \<^verbatim>\<open>right - left > 600\<close>:
  \<^verbatim>\<open>Math.log\<close>, \<^verbatim>\<open>Math.exp\<close> and \<^verbatim>\<open>Math.sqrt\<close> are the real functions.
\<close>

definition floyd_rivest_bounds :: "int \<Rightarrow> int \<Rightarrow> int \<Rightarrow> int \<times> int" where
  "floyd_rivest_bounds k left right =
    (let n = real_of_int (right - left + 1);
         m = real_of_int (k - left + 1);
         z = ln n;
         s = 0.5 * exp (2 * z / 3);
         sd0 = 0.5 * sqrt (z * s * (n - s) / n);
         sd = (if m - n / 2 < 0 then sd0 * (- 1) else sd0);
         newLeft = max left \<lfloor>real_of_int k - m * s / n + sd\<rfloor>;
         newRight = min right \<lfloor>real_of_int k + (n - m) * s / n + sd\<rfloor>
     in (newLeft, newRight))"

text \<open>
  The \<^verbatim>\<open>while (right > left)\<close> loop of \<^verbatim>\<open>quickselect\<close>. The recursive call
  \<^verbatim>\<open>quickselect(arr, k, newLeft, newRight)\<close> is written with the callee's two
  defaulting assignments (\<^verbatim>\<open>left = left || 0; right = right || arr.length - 1\<close>) in place.
\<close>

partial_function (option) quickselect_while :: "real list \<Rightarrow> int \<Rightarrow> int \<Rightarrow> int \<Rightarrow> real list option" where
  "quickselect_while arr k left right =
    (if right > left then do {
       arr1 \<leftarrow> (if right - left > 600
                then (case floyd_rivest_bounds k left right of (newLeft, newRight) \<Rightarrow>
                        quickselect_while arr k (js_or newLeft 0) (js_or newRight (int (length arr) - 1)))
                else Some arr);
       (arr2, j) \<leftarrow> partition_pass arr1 k left right;
       quickselect_while arr2 k (if j \<le> k then j + 1 else left) (if k \<le> j then j - 1 else right)
     }
     else Some arr)"

definition quickselect :: "real list \<Rightarrow> int \<Rightarrow> int \<Rightarrow> int \<Rightarrow> real list option" where
  "quickselect arr k left right =
     quickselect_while arr k (js_or left 0) (js_or right (int (length arr) - 1))"

subsection \<open>util.ts: quantiles\<close>

text \<open>
  \<^verbatim>\<open>idx = x.length * p\<close> is a product of doubles, and the branches test the rounded
  product (\<^verbatim>\<open>idx % 1 !== 0\<close>). \<^verbatim>\<open>Math.ceil(idx) - 1\<close> and \<^verbatim>\<open>idx - 0.5\<close> are exact for
  an \<open>idx\<close> below \<open>2 ^ 52\<close>.
\<close>

definition quantileSorted :: "real list \<Rightarrow> real \<Rightarrow> js_error + real" where
  "quantileSorted x p =
    (let idx = js_times (real (length x)) p in
     if length x = 0 then Inl (Error ''quantile requires at least one data point.'')
     else if p < 0 \<or> p > 1 then Inl (Error ''quantiles must be between 0 and 1'')
     else if p = 1 then Inr (x ! (length x - 1))
     else if p = 0 then Inr (x ! 0)
     else if frac idx \<noteq> 0 then Inr (x ! nat (\<lceil>idx\<rceil> - 1))
     else if length x mod 2 = 0
       then Inr (js_divide (js_plus (x ! nat (\<lfloor>idx\<rfloor> - 1)) (x ! nat \<lfloor>idx\<rfloor>)) 2)
     else Inr (x ! nat \<lfloor>idx\<rfloor>))"

definition quantileIndex :: "nat \<Rightarrow> real \<Rightarrow> real" where
  "quantileIndex len p =
    (let idx = js_times (real len) p in
     if p = 1 then real len - 1
     else if p = 0 then 0
     else if frac idx \<noteq> 0 then of_int (\<lceil>idx\<rceil> - 1)
     else if len mod 2 = 0 then idx - 0.5
     else idx)"

definition quantileSelect :: "real list \<Rightarrow> real \<Rightarrow> int \<Rightarrow> int \<Rightarrow> real list option" where
  "quantileSelect arr k left right =
    (if frac k = 0 then quickselect arr \<lfloor>k\<rfloor> left right
     else do {
       let k' = \<lfloor>k\<rfloor>;
       a \<leftarrow> quickselect arr k' left right;
       quickselect a (k' + 1) (k' + 1) right
     })"

text \<open>
  \<^verbatim>\<open>multiQuantileSelect\<close>: the stack holds integers only, the top of the stack is the
  head of the list, so \<^verbatim>\<open>stack.push(l, m, m, r)\<close> puts \<open>r\<close> first. \<^verbatim>\<open>compare\<close> is
  \<^verbatim>\<open>a - b\<close>, a consistent comparator, so \<^verbatim>\<open>indices.sort(compare)\<close> is the ascending
  sort.
\<close>

partial_function (option) multiQuantileSelect_while ::
    "real list \<Rightarrow> real list \<Rightarrow> int list \<Rightarrow> real list option" where
  "multiQuantileSelect_while arr indices stack =
    (case stack of
       [] \<Rightarrow> Some arr
     | [s1] \<Rightarrow> None
     | r # l # rest \<Rightarrow>
         if r - l \<le> 1 then multiQuantileSelect_while arr indices rest
         else if \<not> (in_bounds indices l \<and> in_bounds indices r) then None
         else do {
           let m = (l + r) div 2;
           arr' \<leftarrow> quantileSelect arr (indices ! nat m) \<lfloor>indices ! nat l\<rfloor> \<lceil>indices ! nat r\<rceil>;
           multiQuantileSelect_while arr' indices (r # m # m # l # rest)
         })"

definition multiQuantileSelect :: "real list \<Rightarrow> real list \<Rightarrow> real list option" where
  "multiQuantileSelect arr p =
    (let indices = sort ([0] @ map (quantileIndex (length arr)) p @ [real (length arr) - 1])
     in multiQuantileSelect_while arr indices [int (length indices) - 1, 0])"

text \<open>
  The store of arrays. \<^verbatim>\<open>x.slice()\<close> allocates a new array with the contents of
  \<open>x\<close>; a routine that mutates its argument in place runs on the array at an address
  (\<open>in_place\<close>).
\<close>

type_synonym addr = nat

record heap =
  contents :: "addr \<Rightarrow> real list"
  limit :: addr

definition slice :: "heap \<Rightarrow> addr \<Rightarrow> addr \<times> heap" where
  "slice h a = (limit h, h\<lparr>contents := (contents h)(limit h := contents h a), limit := Suc (limit h)\<rparr>)"

definition in_place :: "(real list \<Rightarrow> real list option) \<Rightarrow> heap \<Rightarrow> addr \<Rightarrow> heap option" where
  "in_place f h a = map_option (\<lambda>arr. h\<lparr>contents := (contents h)(a := arr)\<rparr>) (f (contents h a))"

definition quantile :: "heap \<Rightarrow> addr \<Rightarrow> real \<Rightarrow> ((js_error + real) \<times> heap) option" where
  "quantile h x p =
    (case slice h x of (copy, h1) \<Rightarrow>
       let idx = quantileIndex (length (contents h1 copy)) p in
       do {
         h2 \<leftarrow> in_place (\<lambda>arr. quantileSelect arr idx 0 (int (length arr) - 1)) h1 copy;
         Some (quantileSorted (contents h2 copy) p, h2)
       })"

text \<open>
  \<^verbatim>\<open>for (i ...) results[i] = quantileSorted(copy, p[i])\<close>: the first throw ends the
  loop. The argument \<open>p\<close> is an array here, so \<^verbatim>\<open>Array.isArray(p)\<close> holds.
\<close>

fun results_loop :: "real list \<Rightarrow> real list \<Rightarrow> real list \<Rightarrow> js_error + real list" where
  "results_loop copy [] results = Inr results"
| "results_loop copy (q # ps) results =
     (case quantileSorted copy q of
        Inl e \<Rightarrow> Inl e
      | Inr v \<Rightarrow> results_loop copy ps (results @ [v]))"

definition quantileArray :: "heap \<Rightarrow> addr \<Rightarrow> real list \<Rightarrow> ((js_error + real list) \<times> heap) option" where
  "quantileArray h x p =
    (case slice h x of (copy, h1) \<Rightarrow>
       do {
         h2 \<leftarrow> in_place (\<lambda>arr. multiQuantileSelect arr p) h1 copy;
         Some (results_loop (contents h2 copy) p [], h2)
       })"

subsection \<open>Grapher: points, links and graphs\<close>

text \<open>A point is a two-element array \<^verbatim>\<open>[x, y]\<close>.\<close>

type_synonym point = "real \<times> real"

text \<open>\<^verbatim>\<open>Math.round\<close>: the nearest integer, ties towards plus infinity.\<close>

definition js_round :: "real \<Rightarrow> real" where
  "js_round v = of_int \<lfloor>v + 1 / 2\<rfloor>"

definition distance :: "point \<Rightarrow> point \<Rightarrow> real" where
  "distance a b =
    (let dx = fst a - fst b; dy = snd a - snd b
     in js_round (sqrt (dx * dx + dy * dy) * 10 ^ 10) / 10 ^ 10)"

definition equalPoints :: "point \<Rightarrow> point \<Rightarrow> bool" where
  "equalPoints id1 id2 = (fst id1 = fst id2 \<and> snd id1 = snd id2)"

record link =
  source :: point
  target :: point
  weight :: real

record gnode =
  node_id :: point

record graph =
  nodes :: "gnode list"
  links :: "link list"

definition equalLinks :: "link \<Rightarrow> link \<Rightarrow> bool" where
  "equalLinks l1 l2 =
    ((equalPoints (source l1) (source l2) \<and> equalPoints (target l1) (target l2)) \<or>
     (equalPoints (source l1) (target l2) \<and> equalPoints (target l1) (source l2)))"

text \<open>Both searches run from the last element to the first.\<close>

definition idExists :: "gnode list \<Rightarrow> point \<Rightarrow> bool" where
  "idExists ns i = list_ex (\<lambda>node. equalPoints (node_id node) i) (rev ns)"

definition linkExists :: "link list \<Rightarrow> link \<Rightarrow> bool" where
  "linkExists ls l = list_ex (\<lambda>l'. equalLinks l l') (rev ls)"

definition makeNode :: "point \<Rightarrow> gnode" where
  "makeNode i = \<lparr>node_id = i\<rparr>"

definition makeLink :: "point \<Rightarrow> point \<Rightarrow> real \<Rightarrow> link" where
  "makeLink sourceId targetId w = \<lparr>source = sourceId, target = targetId, weight = w\<rparr>"

text \<open>A triangle \<open>t\<close> is an array of three points; \<open>tri_at t i\<close> is \<^verbatim>\<open>t[i]\<close>.\<close>

definition tri_at :: "point \<times> point \<times> point \<Rightarrow> nat \<Rightarrow> point" where
  "tri_at t i = (case t of (a, b, c) \<Rightarrow> if i = 0 then a else if i = 1 then b else c)"

definition add_nodes :: "point \<times> point \<times> point \<Rightarrow> gnode list \<Rightarrow> gnode list" where
  "add_nodes t ns =
    foldl (\<lambda>acc i. let p = tri_at t i
                    in if \<not> idExists acc p then acc @ [makeNode p] else acc) ns [0, 1, 2]"

definition add_links :: "point \<times> point \<times> point \<Rightarrow> link list \<Rightarrow> link list" where
  "add_links t ls =
    foldl (\<lambda>acc i. let p1 = tri_at t i; p2 = tri_at t ((i + 1) mod 3);
                        l = makeLink p1 p2 (distance p1 p2)
                    in if \<not> linkExists acc l then acc @ [l] else acc) ls [0, 1, 2]"

definition createGraph :: "(point \<times> point \<times> point) list \<Rightarrow> graph" where
  "createGraph ts =
    \<lparr>nodes = foldl (\<lambda>acc t. add_nodes t acc) [] ts,
     links = foldl (\<lambda>acc t. add_links t acc) [] ts\<rparr>"

subsection \<open>Grapher: the disjoint-set forest and mst\<close>

text \<open>
  \<^verbatim>\<open>DisjointSet\<close> and \<^verbatim>\<open>Node\<close> are written as constructor functions: they assign to
  \<^verbatim>\<open>this\<close> and have no return statement. The module calls both as plain functions,
  \<^verbatim>\<open>forest = DisjointSet()\<close> in \<^verbatim>\<open>mst\<close> and \<^verbatim>\<open>created = Node(id)\<close> in \<^verbatim>\<open>makeSet\<close>;
  there is no \<^verbatim>\<open>new\<close> in the file. In a plain call \<^verbatim>\<open>this\<close> is \<^verbatim>\<open>undefined\<close> in strict
  code (module code is strict), so the first assignment to a property of \<^verbatim>\<open>this\<close>
  throws a TypeError; in sloppy code \<^verbatim>\<open>this\<close> is the global object, the assignments
  land there, and the call evaluates to \<^verbatim>\<open>undefined\<close>. The flag \<open>strict\<close> selects the
  mode.
\<close>

datatype 'a js = Undefined | Obj 'a

definition plain_call :: "bool \<Rightarrow> js_error + 'a js" where
  "plain_call strict = (if strict then Inl TypeError else Inr Undefined)"

text \<open>
  A node object has the fields \<^verbatim>\<open>id_\<close>, \<^verbatim>\<open>parent_\<close> and \<^verbatim>\<open>rank_\<close> (here \<open>uf_id\<close>,
  \<open>uf_parent\<close>, \<open>uf_rank\<close>). The object
  \<^verbatim>\<open>index_\<close> holds one entry per key, so a node is identified by its \<^verbatim>\<open>id_\<close>, and the
  reference \<^verbatim>\<open>parent_\<close> is the \<^verbatim>\<open>id_\<close> of the node it points to. The keys of \<^verbatim>\<open>index_\<close>
  are kept in insertion order.
\<close>

record uf_node =
  uf_id :: point
  uf_parent :: point
  uf_rank :: nat

type_synonym disjoint_set = "(point \<times> uf_node js) list"

definition index_put :: "point \<Rightarrow> uf_node js \<Rightarrow> disjoint_set \<Rightarrow> disjoint_set" where
  "index_put k v index =
    (if k \<in> fst ` set index then map (\<lambda>(k', v'). if k' = k then (k', v) else (k', v')) index
     else index @ [(k, v)])"

text \<open>A method call on the value of \<^verbatim>\<open>forest\<close>: a member access on \<^verbatim>\<open>undefined\<close> throws.\<close>

definition makeSet :: "bool \<Rightarrow> disjoint_set js \<Rightarrow> point \<Rightarrow> js_error + disjoint_set js" where
  "makeSet strict this i =
    (case this of
       Undefined \<Rightarrow> Inl TypeError
     | Obj index \<Rightarrow>
         (case map_of index i of
            Some (Obj n) \<Rightarrow> Inr (Obj index)
          | _ \<Rightarrow>
              (case plain_call strict of
                 Inl e \<Rightarrow> Inl e
               | Inr created \<Rightarrow> Inr (Obj (index_put i created index)))))"

text \<open>\<^verbatim>\<open>while (current !== current.parent_) current = current.parent_\<close>\<close>

partial_function (option) find_while :: "disjoint_set \<Rightarrow> uf_node \<Rightarrow> uf_node option" where
  "find_while index current =
    (if uf_id current \<noteq> uf_parent current
     then (case map_of index (uf_parent current) of
             Some (Obj n) \<Rightarrow> find_while index n
           | _ \<Rightarrow> None)
     else Some current)"

definition find :: "disjoint_set js \<Rightarrow> point \<Rightarrow> (js_error + point js) option" where
  "find this i =
    (case this of
       Undefined \<Rightarrow> Some (Inl TypeError)
     | Obj index \<Rightarrow>
         (case map_of index i of
            Some (Obj n) \<Rightarrow>
              (case map_of index (uf_parent n) of
                 Some (Obj c) \<Rightarrow> map_option (\<lambda>r. Inr (Obj (uf_id r))) (find_while index c)
               | _ \<Rightarrow> None)
          | _ \<Rightarrow> Some (Inr Undefined)))"

text \<open>
  \<^verbatim>\<open>union\<close>: the first test reads the property \<^verbatim>\<open>rank\<close>, which no node has, so it
  compares \<^verbatim>\<open>undefined < undefined\<close> and is false.
\<close>

definition root_of :: "disjoint_set \<Rightarrow> point js \<Rightarrow> uf_node js" where
  "root_of index r =
    (case r of
       Undefined \<Rightarrow> Undefined
     | Obj k \<Rightarrow> (case map_of index k of Some v \<Rightarrow> v | None \<Rightarrow> Undefined))"

definition union_roots :: "disjoint_set \<Rightarrow> point js \<Rightarrow> point js \<Rightarrow> disjoint_set" where
  "union_roots index fx fy =
    (case (root_of index fx, root_of index fy) of
       (Obj xRoot, Obj yRoot) \<Rightarrow>
         if uf_id xRoot = uf_id yRoot then index
         else if False then
           index_put (uf_id xRoot) (Obj (xRoot\<lparr>uf_parent := uf_id yRoot\<rparr>)) index
         else if uf_rank yRoot < uf_rank xRoot then
           index_put (uf_id yRoot) (Obj (yRoot\<lparr>uf_parent := uf_id xRoot\<rparr>)) index
         else
           index_put (uf_id xRoot) (Obj (xRoot\<lparr>uf_rank := uf_rank xRoot + 1\<rparr>))
             (index_put (uf_id yRoot) (Obj (yRoot\<lparr>uf_parent := uf_id xRoot\<rparr>)) index)
     | _ \<Rightarrow> index)"

definition union :: "disjoint_set js \<Rightarrow> point \<Rightarrow> point \<Rightarrow> (js_error + disjoint_set js) option" where
  "union this x y =
    (case this of
       Undefined \<Rightarrow> Some (Inl TypeError)
     | Obj index \<Rightarrow>
         (case find this x of
            None \<Rightarrow> None
          | Some (Inl e) \<Rightarrow> Some (Inl e)
          | Some (Inr fx) \<Rightarrow>
              (case find this y of
                 None \<Rightarrow> None
               | Some (Inl e) \<Rightarrow> Some (Inl e)
               | Some (Inr fy) \<Rightarrow> Some (Inr (Obj (union_roots index fx fy))))))"

text \<open>\<^verbatim>\<open>size\<close> counts the keys of \<^verbatim>\<open>index_\<close>.\<close>

definition size_of :: "disjoint_set js \<Rightarrow> js_error + nat" where
  "size_of this = (case this of Undefined \<Rightarrow> Inl TypeError | Obj index \<Rightarrow> Inr (length index))"

text \<open>\<^verbatim>\<open>vertices.forEach(vertex => forest.makeSet(vertex.id))\<close>\<close>

fun makeSet_each :: "bool \<Rightarrow> disjoint_set js \<Rightarrow> gnode list \<Rightarrow> js_error + disjoint_set js" where
  "makeSet_each strict forest [] = Inr forest"
| "makeSet_each strict forest (vertex # vs) =
     (case makeSet strict forest (node_id vertex) of
        Inl e \<Rightarrow> Inl e
      | Inr forest' \<Rightarrow> makeSet_each strict forest' vs)"

text \<open>
  The loop \<^verbatim>\<open>while (edges.length && forest.size() > 1)\<close>. The edges are sorted by
  descending weight and \<^verbatim>\<open>edges.pop()\<close> takes the last one; here the list is kept
  reversed, so the head is the edge popped next.
\<close>

partial_function (option) mst_while ::
    "disjoint_set js \<Rightarrow> link list \<Rightarrow> link list \<Rightarrow> (js_error + link list) option" where
  "mst_while forest edges selectedEdges =
    (case edges of
       [] \<Rightarrow> Some (Inr selectedEdges)
     | edge # rest \<Rightarrow>
         (case size_of forest of
            Inl e \<Rightarrow> Some (Inl e)
          | Inr n \<Rightarrow>
              if \<not> n > 1 then Some (Inr selectedEdges)
              else
                (case find forest (source edge) of
                   None \<Rightarrow> None
                 | Some (Inl e) \<Rightarrow> Some (Inl e)
                 | Some (Inr a) \<Rightarrow>
                     (case find forest (target edge) of
                        None \<Rightarrow> None
                      | Some (Inl e) \<Rightarrow> Some (Inl e)
                      | Some (Inr b) \<Rightarrow>
                          if a \<noteq> b then
                            (case union forest (source edge) (target edge) of
                               None \<Rightarrow> None
                             | Some (Inl e) \<Rightarrow> Some (Inl e)
                             | Some (Inr forest') \<Rightarrow>
                                 mst_while forest' rest (selectedEdges @ [edge]))
                          else mst_while forest rest selectedEdges))))"

definition mst :: "bool \<Rightarrow> graph \<Rightarrow> (js_error + graph) option" where
  "mst strict g =
    (let vertices = nodes g; edges = links g in
     case plain_call strict of
       Inl e \<Rightarrow> Some (Inl e)
     | Inr forest \<Rightarrow>
         (case makeSet_each strict forest vertices of
            Inl e \<Rightarrow> Some (Inl e)
          | Inr forest' \<Rightarrow>
              (let sorted_edges = sort_key (\<lambda>l. - weight l) edges in
               case mst_while forest' (rev sorted_edges) [] of
                 None \<Rightarrow> None
               | Some (Inl e) \<Rightarrow> Some (Inl e)
               | Some (Inr selectedEdges) \<Rightarrow> Some (Inr \<lparr>nodes = vertices, links = selectedEdges\<rparr>))))"

subsection \<open>Grapher: delaunayFromPoints\<close>

text \<open>
  \<^verbatim>\<open>isA2DLine\<close> (module \<^verbatim>\<open>constructor\<close>), \<^verbatim>\<open>Delaunay.from\<close> (d3-delaunay) and the
  engine's \<^verbatim>\<open>Array.prototype.sort\<close> are parameters of the model. The comparator given
  to \<^verbatim>\<open>sort\<close> is \<^verbatim>\<open>(a, b) => (a[0] > b[0] ? a[0] - b[0] : a[1] - b[1])\<close>.
\<close>

definition fan_compare :: "point \<Rightarrow> point \<Rightarrow> real" where
  "fan_compare a b = (if fst a > fst b then fst a - fst b else snd a - snd b)"

text \<open>
  \<^verbatim>\<open>for (let i = 0; i < siteLength; i = i + 2) { ... }\<close>, with \<open>tgs\<close> the array built so
  far.
\<close>

function fan_loop :: "int \<Rightarrow> int \<Rightarrow> int list \<Rightarrow> int list" where
  "fan_loop siteLength i tgs =
    (if i < siteLength then
       (let tgs1 = (if i + 1 < siteLength then tgs @ [i, i + 1] else tgs);
            tgs2 = (if i + 2 < siteLength then tgs1 @ [i + 2]
                    else if siteLength mod 2 = 0 then tgs1 @ [i - 1]
                    else tgs1)
        in fan_loop siteLength (i + 2) tgs2)
     else tgs)"
  by pat_completeness auto
termination
  by (relation "measure (\<lambda>(siteLength, i, tgs). nat (siteLength - i))") auto

declare fan_loop.simps [simp del]

datatype 'd delaunay =
  Fan (triangles: "int list") (points: "point list")
| Library (delaunay_object: 'd) (points: "point list")

definition delaunayFromPoints ::
    "(point list \<Rightarrow> bool) \<Rightarrow> ((point \<Rightarrow> point \<Rightarrow> real) \<Rightarrow> point list \<Rightarrow> point list) \<Rightarrow>
     (point list \<Rightarrow> 'd) \<Rightarrow> point list \<Rightarrow> 'd delaunay" where
  "delaunayFromPoints isA2DLine array_sort delaunay_from sites =
    (if isA2DLine sites then
       (let copiedSites = array_sort fan_compare sites;
            siteLength = int (length copiedSites)
        in Fan (fan_loop siteLength 0 []) copiedSites)
     else Library (delaunay_from sites) sites)"

text \<open>
  Modelled from the spec: \<^verbatim>\<open>isA2DLine\<close> of the module \<^verbatim>\<open>constructor\<close>, which is not among
  the sources. The spec calls sites collinear when they "all share one x or lie on a 2-D
  line"; here every site lies on the line through the first two.
\<close>

definition collinear_sites :: "point list \<Rightarrow> bool" where
  "collinear_sites sites =
    (case sites of
       a # b # rest \<Rightarrow>
         list_all (\<lambda>c. (fst b - fst a) * (snd c - snd a) = (snd b - snd a) * (fst c - fst a)) rest
     | _ \<Rightarrow> True)"

text \<open>
  An insertion sort driven by a comparator, one admissible behaviour of
  \<^verbatim>\<open>Array.prototype.sort\<close>; it instantiates the parameter in examples.
\<close>

fun insert_by :: "('a \<Rightarrow> 'a \<Rightarrow> real) \<Rightarrow> 'a \<Rightarrow> 'a list \<Rightarrow> 'a list" where
  "insert_by cmp x [] = [x]"
| "insert_by cmp x (y # ys) = (if cmp x y < 0 then x # y # ys else y # insert_by cmp x ys)"

definition insertion_sort :: "('a \<Rightarrow> 'a \<Rightarrow> real) \<Rightarrow> 'a list \<Rightarrow> 'a list" where
  "insertion_sort cmp xs = foldl (\<lambda>acc x. insert_by cmp x acc) [] xs"

subsection \<open>Grapher: concaveHull1\<close>

text \<open>
  \<^verbatim>\<open>Delaunay.from(sites).triangles\<close> is a parameter: a flat array of vertex indices,
  three per triangle. An edge is a two-element array of indices.

  One run of the two nested \<^verbatim>\<open>for\<close> loops over the triangles. Reading a triangle
  index or a site that does not exist yields \<^verbatim>\<open>undefined\<close>, and \<^verbatim>\<open>distance\<close> then
  throws a TypeError.
\<close>

fun edge_pass :: "point list \<Rightarrow> nat list \<Rightarrow> real \<Rightarrow> (nat \<times> nat) list \<Rightarrow> js_error + (nat \<times> nat) list" where
  "edge_pass pts [] longEdge cells = Inr cells"
| "edge_pass pts (a # b # c # rest) longEdge cells =
     (if a < length pts \<and> b < length pts \<and> c < length pts
      then edge_pass pts rest longEdge
             (cells @ filter (\<lambda>e. distance (pts ! fst e) (pts ! snd e) < longEdge)
                        [(a, b), (b, c), (c, a)])
      else Inl TypeError)"
| "edge_pass pts (a # rest) longEdge cells = Inl TypeError"

text \<open>\<^verbatim>\<open>while (cells.length <= 0) { longEdge = longEdge + 10e-3; ... }\<close>\<close>

partial_function (option) concaveHull1_while ::
    "point list \<Rightarrow> nat list \<Rightarrow> real \<Rightarrow> (nat \<times> nat) list \<Rightarrow> (js_error + (nat \<times> nat) list) option" where
  "concaveHull1_while pts tris longEdge cells =
    (if length cells \<le> 0 then
       (case edge_pass pts tris (longEdge + 1 / 100) cells of
          Inl e \<Rightarrow> Some (Inl e)
        | Inr cells' \<Rightarrow> concaveHull1_while pts tris (longEdge + 1 / 100) cells')
     else Some (Inr cells))"

text \<open>
  \<^verbatim>\<open>edge.sort()\<close> has no comparator, so it orders the two indices by their decimal
  strings. \<open>decimal n\<close> is the digit sequence of \<open>n\<close>; digits compare as their
  characters do.
\<close>

fun decimal :: "nat \<Rightarrow> nat list" where
  "decimal n = (if n < 10 then [n] else decimal (n div 10) @ [n mod 10])"

declare decimal.simps [simp del]

text \<open>The order of strings: code unit by code unit, a proper prefix first.\<close>

fun str_less :: "nat list \<Rightarrow> nat list \<Rightarrow> bool" where
  "str_less [] [] = False"
| "str_less [] (y # ys) = True"
| "str_less (x # xs) [] = False"
| "str_less (x # xs) (y # ys) = (x < y \<or> (x = y \<and> str_less xs ys))"

definition edge_sort :: "nat \<times> nat \<Rightarrow> nat \<times> nat" where
  "edge_sort e = (case e of (a, b) \<Rightarrow> if str_less (decimal b) (decimal a) then (b, a) else (a, b))"

text \<open>
  \<^verbatim>\<open>edgeCount[theKey] = edgeCount[theKey] ? edgeCount[theKey] : 0 + 1\<close>: the conditional
  binds weaker than \<^verbatim>\<open>+\<close>, so the right-hand side is
  \<^verbatim>\<open>edgeCount[theKey] ? edgeCount[theKey] : (0 + 1)\<close>. The key \<^verbatim>\<open>edge.sort().join(',')\<close>
  of an edge is represented by the sorted edge itself.
\<close>

definition count_edge :: "((nat \<times> nat) \<rightharpoonup> nat) \<Rightarrow> nat \<times> nat \<Rightarrow> ((nat \<times> nat) \<rightharpoonup> nat)" where
  "count_edge edgeCount edge =
    (let theKey = edge_sort edge
     in edgeCount(theKey \<mapsto>
          (case edgeCount theKey of
             Some c \<Rightarrow> if c \<noteq> 0 then c else 0 + 1
           | None \<Rightarrow> 0 + 1)))"

text \<open>
  The \<^verbatim>\<open>forEach\<close> sorts every edge in place while counting, and the \<^verbatim>\<open>filter\<close> keeps
  the edges whose count is \<open>1\<close>.
\<close>

definition boundary_filter :: "(nat \<times> nat) list \<Rightarrow> (nat \<times> nat) list" where
  "boundary_filter cells =
    (let edgeCount = foldl count_edge Map.empty cells;
         sorted_cells = map edge_sort cells
     in filter (\<lambda>edge. edgeCount (edge_sort edge) = Some 1) sorted_cells)"

definition concaveHull1 ::
    "(point list \<Rightarrow> nat list) \<Rightarrow> point list \<Rightarrow> real \<Rightarrow> (js_error + (nat \<times> nat) list) option" where
  "concaveHull1 delaunay_triangles sites longEdge =
    (case concaveHull1_while sites (delaunay_triangles sites) (longEdge - 1 / 100) [] of
       None \<Rightarrow> None
     | Some (Inl e) \<Rightarrow> Some (Inl e)
     | Some (Inr cells) \<Rightarrow> Some (Inr (boundary_filter cells)))"

subsection \<open>The entry point scagScorer: normalisation and binning\<close>

text \<open>
  The options record. A field that is \<^verbatim>\<open>undefined\<close> is \<open>None\<close>; the two flags are
  read only for their truthiness.
\<close>

record options =
  binType :: "string option"
  startBinGridSize :: "real option"
  isNormalized :: bool
  isBinned :: bool
  minBins :: "real option"
  maxBins :: "real option"

definition truthy :: "real option \<Rightarrow> bool" where
  "truthy v = (case v of None \<Rightarrow> False | Some r \<Rightarrow> r \<noteq> 0)"

text \<open>
  A bin is an array of points with the properties \<^verbatim>\<open>x\<close>, \<^verbatim>\<open>y\<close> and \<^verbatim>\<open>binRadius\<close>.
  The radius may be \<^verbatim>\<open>Infinity\<close> (a division by a zero grid size).
\<close>

datatype js_number = Finite real | Infinity

record bin =
  members :: "point list"
  bin_x :: real
  bin_y :: real
  bin_radius :: js_number

text \<open>\<^verbatim>\<open>uniq\<close> of underscore keeps the first occurrence of every element.\<close>

definition uniq :: "'a list \<Rightarrow> 'a list" where
  "uniq xs = rev (remdups (rev xs))"

definition minNumOfBins :: "options \<Rightarrow> real" where
  "minNumOfBins opts = (if truthy (minBins opts) then the (minBins opts) else 50)"

definition maxNumOfBins :: "options \<Rightarrow> real" where
  "maxNumOfBins opts = (if truthy (maxBins opts) then the (maxBins opts) else 500)"

definition startGrid :: "options \<Rightarrow> real" where
  "startGrid opts = (if \<not> truthy (startBinGridSize opts) then 40 else the (startBinGridSize opts))"

text \<open>The state of the binning: \<^verbatim>\<open>bins\<close>, \<^verbatim>\<open>binSize\<close> (\<open>None\<close> is \<^verbatim>\<open>null\<close>), \<^verbatim>\<open>binRadius\<close>.\<close>

record binning =
  bins :: "bin list"
  binSize :: "real option"
  binRadius :: js_number

text \<open>
  The \<^verbatim>\<open>do { ... } while (bins.length > maxNumOfBins || bins.length < minNumOfBins)\<close>
  loop. \<^verbatim>\<open>Binner().radius(r).extent([[0, 0], [1, 1]]).hexbin(points)\<close> belongs to the
  module \<^verbatim>\<open>constructor\<close> and is the parameter \<open>hexbin\<close>.
\<close>

definition next_binSize :: "options \<Rightarrow> binning \<Rightarrow> real" where
  "next_binSize opts st =
    (case binSize st of
       None \<Rightarrow> startGrid opts
     | Some b \<Rightarrow>
         if real (length (bins st)) > maxNumOfBins opts then b / 2
         else if real (length (bins st)) < minNumOfBins opts then b + 5
         else b)"

definition bin_step ::
    "(js_number \<Rightarrow> point list \<Rightarrow> bin list) \<Rightarrow> options \<Rightarrow> point list \<Rightarrow> binning \<Rightarrow> binning" where
  "bin_step hexbin opts normalizedPoints st =
    (let b = next_binSize opts st in
     if binType opts = Some ''hexagon'' then
       (let r = (if b = 0 then Infinity else Finite ((1 / b) / sqrt 2))
        in \<lparr>bins = hexbin r normalizedPoints, binSize = Some b, binRadius = r\<rparr>)
     else st\<lparr>binSize := Some b\<rparr>)"

partial_function (option) binning_while ::
    "(js_number \<Rightarrow> point list \<Rightarrow> bin list) \<Rightarrow> options \<Rightarrow> point list \<Rightarrow> binning \<Rightarrow> binning option" where
  "binning_while hexbin opts normalizedPoints st =
    (let st' = bin_step hexbin opts normalizedPoints st in
     if real (length (bins st')) > maxNumOfBins opts \<or> real (length (bins st')) < minNumOfBins opts
     then binning_while hexbin opts normalizedPoints st'
     else Some st')"

text \<open>
  The branch for few distinct points: one bin per distinct key, holding the points with
  that key (\<^verbatim>\<open>groupBy\<close>), centred at its first point.
\<close>

definition point_bin :: "point list \<Rightarrow> point \<Rightarrow> bin" where
  "point_bin normalizedPoints key =
    (let group = filter (\<lambda>p. p = key) normalizedPoints
     in \<lparr>members = group, bin_x = fst (hd group), bin_y = snd (hd group), bin_radius = Finite 0\<rparr>)"

definition binning_of ::
    "(js_number \<Rightarrow> point list \<Rightarrow> bin list) \<Rightarrow> options \<Rightarrow> point list \<Rightarrow> binning option" where
  "binning_of hexbin opts normalizedPoints =
    (let uniqueKeys = uniq normalizedPoints in
     if real (length uniqueKeys) < minNumOfBins opts
     then Some \<lparr>bins = map (point_bin normalizedPoints) uniqueKeys, binSize = None,
                binRadius = Finite 0\<rparr>
     else binning_while hexbin opts normalizedPoints \<lparr>bins = [], binSize = None, binRadius = Finite 0\<rparr>)"

text \<open>
  The host object \<^verbatim>\<open>this\<close>, on which \<^verbatim>\<open>outputValue\<close> stores every result as soon as
  it is computed; \<open>None\<close> is a property not yet set. (The \<^verbatim>\<open>binner\<close> object itself is
  not represented.)
\<close>

record host =
  out_normalizedPoints :: "point list option"
  out_bins :: "bin list option"
  out_binSize :: "real option option"
  out_binRadius :: "js_number option"
  out_binnedSites :: "point list option"

text \<open>
  \<^verbatim>\<open>scagScorer\<close> from its first statement to \<^verbatim>\<open>outputValue('binnedSites', sites)\<close>.
  \<^verbatim>\<open>new Normalizer(points).normalizedPoints\<close> belongs to the module \<^verbatim>\<open>constructor\<close> and
  is the parameter \<open>normalizer\<close>, which may throw. The result is the host object as the
  function leaves it, together with either the error thrown or the sites handed to
  \<^verbatim>\<open>delaunayFromPoints\<close>.
\<close>

definition scagScorer_front ::
    "(point list \<Rightarrow> js_error + point list) \<Rightarrow> (js_number \<Rightarrow> point list \<Rightarrow> bin list) \<Rightarrow>
     host \<Rightarrow> point list \<Rightarrow> options \<Rightarrow> (host \<times> (js_error + point list)) option" where
  "scagScorer_front normalizer hexbin this inputPoints opts =
    (let pts = inputPoints in
     case (if \<not> isNormalized opts then normalizer pts else Inr pts) of
       Inl e \<Rightarrow> Some (this, Inl e)
     | Inr normalizedPoints \<Rightarrow>
         (let this1 = this\<lparr>out_normalizedPoints := Some normalizedPoints\<rparr> in
          if \<not> isBinned opts then
            (case binning_of hexbin opts normalizedPoints of
               None \<Rightarrow> None
             | Some b \<Rightarrow>
                 (let sites = map (\<lambda>d. (bin_x d, bin_y d)) (bins b);
                      this2 = this1\<lparr>out_bins := Some (bins b), out_binSize := Some (binSize b),
                                     out_binRadius := Some (binRadius b)\<rparr>
                  in Some (this2\<lparr>out_binnedSites := Some sites\<rparr>, Inr sites)))
          else Some (this1\<lparr>out_binnedSites := Some normalizedPoints\<rparr>, Inr normalizedPoints)))"

text \<open>A store with one array, at address \<open>0\<close>.\<close>

definition single_array :: "real list \<Rightarrow> heap" where
  "single_array xs = \<lparr>contents = (\<lambda>_. [])(0 := xs), limit = 1\<rparr>"

text \<open>The closed form of the index array built by \<open>fan_loop\<close> for \<open>n\<close> sites.\<close>

definition fan_of :: "nat \<Rightarrow> int list" where
  "fan_of n =
     concat (map (\<lambda>j. [2 * int j, 2 * int j + 1, 2 * int j + 2]) [0..<(n - 1) div 2]) @
     (if even n then [int n - 2, int n - 1, int n - 3] else [])"

text \<open>Values used in examples: an empty host object and two option records.\<close>

definition host0 :: host where
  "host0 = \<lparr>out_normalizedPoints = None, out_bins = None, out_binSize = None,
     out_binRadius = None, out_binnedSites = None\<rparr>"

definition default_options :: options where
  "default_options = \<lparr>binType = None, startBinGridSize = None, isNormalized = False,
     isBinned = False, minBins = None, maxBins = None\<rparr>"


subsection \<open>Grapher: convexHull and sortVerticies\<close>

text \<open>
  \<^verbatim>\<open>Math.atan2(y, x)\<close> over the reals: the angle in \<open>(-pi, pi]\<close> of the point \<open>(x, y)\<close>,
  and \<open>0\<close> at the origin.
\<close>

definition js_atan2 :: "real \<Rightarrow> real \<Rightarrow> real" where
  "js_atan2 y x =
    (if x > 0 then arctan (y / x)
     else if x < 0 then (if y \<ge> 0 then arctan (y / x) + pi else arctan (y / x) - pi)
     else if y > 0 then pi / 2
     else if y < 0 then - pi / 2
     else 0)"

definition toDegrees :: "real \<Rightarrow> real" where
  "toDegrees angle = angle * (180 / pi)"

text \<open>The remainder \<^verbatim>\<open>x % y\<close>: the quotient is truncated towards zero.\<close>

definition js_rem :: "real \<Rightarrow> real \<Rightarrow> real" where
  "js_rem x y = x - y * of_int (if x / y \<ge> 0 then \<lfloor>x / y\<rfloor> else \<lceil>x / y\<rceil>)"

definition findCentroid :: "point list \<Rightarrow> point" where
  "findCentroid pts =
    (foldl (\<lambda>x p. x + fst p) 0 pts / real (length pts),
     foldl (\<lambda>y p. y + snd p) 0 pts / real (length pts))"

text \<open>
  The angle \<^verbatim>\<open>a1\<close> (or \<^verbatim>\<open>a2\<close>) of the comparator of \<^verbatim>\<open>sortVerticies\<close>. The first argument
  of \<^verbatim>\<open>Math.atan2\<close> is the difference of the x coordinates, the second the difference of
  the y coordinates.
\<close>

definition vertex_angle :: "point \<Rightarrow> point \<Rightarrow> real" where
  "vertex_angle center a =
     js_rem (toDegrees (js_atan2 (fst a - fst center) (snd a - snd center)) + 360) 360"

definition vertex_compare :: "point \<Rightarrow> point \<Rightarrow> point \<Rightarrow> real" where
  "vertex_compare center a b = js_round (vertex_angle center a - vertex_angle center b)"

text \<open>
  \<^verbatim>\<open>Array.prototype.sort\<close> with a comparator is a parameter, as in \<^verbatim>\<open>delaunayFromPoints\<close>.
\<close>

definition sortVerticies ::
    "((point \<Rightarrow> point \<Rightarrow> real) \<Rightarrow> point list \<Rightarrow> point list) \<Rightarrow> point list \<Rightarrow> point list" where
  "sortVerticies array_sort pts = array_sort (vertex_compare (findCentroid pts)) pts"

text \<open>
  \<^verbatim>\<open>convexHull\<close>. The functions \<^verbatim>\<open>isA2DLine\<close> and \<^verbatim>\<open>alphaShape\<close> are imported, so they are
  parameters; a cell of the alpha shape is the list of the indices of its sites.
  \<^verbatim>\<open>Array.from(new Set(cells.flat()))\<close> keeps the first occurrence of every index. A site
  index out of range reads \<^verbatim>\<open>undefined\<close>, whose coordinate \<^verbatim>\<open>findCentroid\<close> then reads:
  a \<^verbatim>\<open>TypeError\<close>.
\<close>

definition convexHull ::
    "(point list \<Rightarrow> bool) \<Rightarrow> (real \<Rightarrow> point list \<Rightarrow> nat list list) \<Rightarrow>
     ((point \<Rightarrow> point \<Rightarrow> real) \<Rightarrow> point list \<Rightarrow> point list) \<Rightarrow> point list \<Rightarrow>
     js_error + point list" where
  "convexHull isA2DLine alphaShape array_sort sites =
    (if isA2DLine sites then Inr sites
     else
       (let cells = alphaShape 0 sites;
            h = uniq (concat cells)
        in if list_all (\<lambda>item. item < length sites) h
           then Inr (sortVerticies array_sort (map (\<lambda>item. sites ! item) h))
           else Inl TypeError))"

subsection \<open>Predicates used in the statements about quickselect\<close>

text \<open>The elements of \<open>a\<close> at the indices \<open>l, ..., r\<close>.\<close>

definition range_of :: "real list \<Rightarrow> int \<Rightarrow> int \<Rightarrow> real list" where
  "range_of a l r = take (nat (r - l + 1)) (drop (nat l) a)"

text \<open>
  What a selection of index \<open>k\<close> in \<open>[left, right]\<close> establishes: the result is a
  permutation, unchanged outside the range, with no element of \<open>[left, k]\<close> above
  and no element of \<open>[k, right]\<close> below the element at \<open>k\<close>.
\<close>

definition select_post :: "real list \<Rightarrow> real list \<Rightarrow> int \<Rightarrow> int \<Rightarrow> int \<Rightarrow> bool" where
  "select_post arr arr' k left right \<longleftrightarrow>
     length arr' = length arr \<and> mset arr' = mset arr \<and>
     (\<forall>x::nat. int x < left \<or> right < int x \<longrightarrow> arr' ! x = arr ! x) \<and>
     (\<forall>x. left \<le> x \<and> x \<le> k \<longrightarrow> arr' ! nat x \<le> arr' ! nat k) \<and>
     (\<forall>x. k \<le> x \<and> x \<le> right \<longrightarrow> arr' ! nat k \<le> arr' ! nat x)"

text \<open>
  The invariant of the inner loop for the pivot \<open>t\<close>: the elements left of \<open>i\<close> are
  at most \<open>t\<close>, those right of \<open>j\<close> at least \<open>t\<close>, and the elements at \<open>i\<close> and \<open>j\<close>
  stop the two scans.
\<close>

definition hoare_inv :: "real list \<Rightarrow> real \<Rightarrow> int \<Rightarrow> int \<Rightarrow> int \<Rightarrow> int \<Rightarrow> bool" where
  "hoare_inv a t left right i j \<longleftrightarrow>
     0 \<le> left \<and> right < int (length a) \<and> left \<le> i \<and> i \<le> right \<and> left \<le> j \<and> j \<le> right \<and>
     (\<forall>x. left \<le> x \<and> x < i \<longrightarrow> a ! nat x \<le> t) \<and>
     (\<forall>x. j < x \<and> x \<le> right \<longrightarrow> t \<le> a ! nat x) \<and>
     t \<le> a ! nat i \<and> a ! nat j \<le> t"

section \<open>Properties\<close>

subsection \<open>Rounding to a double\<close>

lemma floor_log2_eq:
  assumes "2 powi e \<le> v" and "v < 2 powi (e + 1)"
  shows "\<lfloor>log 2 v\<rfloor> = e"
proof -
  have pos: "0 < v" using assms(1) by (smt (verit) zero_less_power_int)
  have a: "2 powi e = 2 powr (of_int e :: real)"
    by (rule powr_real_of_int' [symmetric]) simp_all
  have b: "2 powi (e + 1) = 2 powr (of_int (e + 1) :: real)"
    by (rule powr_real_of_int' [symmetric]) simp_all
  have "of_int e \<le> log 2 v"
    using assms(1) pos unfolding a by (simp add: le_log_iff)
  moreover have "log 2 v < of_int (e + 1)"
    using assms(2) pos unfolding b by (simp add: log_less_iff)
  ultimately show ?thesis by linarith
qed

lemma to_double_bracket:
  assumes "2 powi e \<le> \<bar>v\<bar>" and "\<bar>v\<bar> < 2 powi (e + 1)"
  shows "to_double v =
    of_int (round_half_even (v / 2 powi max (e - 52) (- 1074))) * 2 powi max (e - 52) (- 1074)"
proof -
  have "v \<noteq> 0" using assms(1) by (smt (verit) zero_less_power_int)
  moreover have "ulp_exponent v = max (e - 52) (- 1074)"
    unfolding ulp_exponent_def using floor_log2_eq [OF assms] by simp
  ultimately show ?thesis by (simp add: to_double_def)
qed

lemma floor_log2_bracket:
  assumes "0 < v"
  shows "2 powi \<lfloor>log 2 v\<rfloor> \<le> v \<and> v < 2 powi (\<lfloor>log 2 v\<rfloor> + 1)"
proof -
  let ?e = "\<lfloor>log 2 v\<rfloor>"
  have a: "2 powi ?e = 2 powr (of_int ?e :: real)"
    by (rule powr_real_of_int' [symmetric]) simp_all
  have b: "2 powi (?e + 1) = 2 powr (of_int (?e + 1) :: real)"
    by (rule powr_real_of_int' [symmetric]) simp_all
  have "of_int ?e \<le> log 2 v" by simp
  then have "2 powr (of_int ?e) \<le> v"
    using assms le_log_iff [of 2 v "of_int ?e"] by fastforce
  moreover have "log 2 v < of_int (?e + 1)" by linarith
  then have "v < 2 powr (of_int (?e + 1))"
    using assms log_less_iff [of 2 v "of_int (?e + 1)"] by fastforce
  ultimately show ?thesis unfolding a b by simp
qed

lemma round_half_even_below:
  assumes "w < of_int M - 1 / 2"
  shows "round_half_even w \<le> M - 1"
proof -
  have f: "\<lfloor>w\<rfloor> \<le> M - 1" using assms by linarith
  show ?thesis
  proof (cases "\<lfloor>w\<rfloor> = M - 1")
    case True
    then have "w - of_int \<lfloor>w\<rfloor> < 1 / 2" using assms by simp
    then show ?thesis using True by (simp add: round_half_even_def)
  next
    case False
    with f have "\<lfloor>w\<rfloor> + 1 \<le> M - 1" by simp
    then show ?thesis by (simp add: round_half_even_def Let_def)
  qed
qed

lemma round_half_even_ge:
  assumes "of_int M \<le> w"
  shows "M \<le> round_half_even w"
proof -
  have "M \<le> \<lfloor>w\<rfloor>" using assms by linarith
  then show ?thesis by (simp add: round_half_even_def Let_def)
qed

lemma round_half_even_int: "round_half_even (of_int k) = k"
  by (simp add: round_half_even_def)

lemma two_powi_add: "(2::real) powi (a + b) = 2 powi a * 2 powi b"
  by (simp add: power_int_add)

lemma two_powi_shift:
  "(2::real) powi (E + 1) = 2 powi 53 * 2 powi (E - 52)"
  "(2::real) powi (E - 52) = 2 powi (E + 1) * 2 powi (- 53)"
proof -
  have a: "E + 1 = 53 + (E - 52)" and b: "E - 52 = (E + 1) + (- 53)" by simp_all
  show "(2::real) powi (E + 1) = 2 powi 53 * 2 powi (E - 52)"
    by (subst a) (rule two_powi_add)
  show "(2::real) powi (E - 52) = 2 powi (E + 1) * 2 powi (- 53)"
    by (subst b) (rule two_powi_add)
qed

text \<open>A double in (0, 1) is at least 2^-1074 and at most 1 - 2^-53.\<close>

lemma double_below_one:
  assumes d: "to_double p = p" and pos: "0 < p" and lt: "p < 1"
  shows "2 powi (- 1074) \<le> p \<and> p \<le> 1 - 2 powi (- 53)"
proof -
  define E where "E = \<lfloor>log 2 p\<rfloor>"
  define b where "b = max (E - 52) (- 1074)"
  define k where "k = round_half_even (p / 2 powi b)"
  have br: "2 powi E \<le> p" "p < 2 powi (E + 1)"
    using floor_log2_bracket [OF pos] unfolding E_def by blast+
  have ue: "ulp_exponent p = b" using pos by (simp add: ulp_exponent_def b_def E_def)
  have pk: "p = of_int k * 2 powi b"
    using d pos unfolding to_double_def ue k_def by simp
  have bpos: "(0::real) < 2 powi b" by simp
  have kpos: "0 < k"
  proof (rule ccontr)
    assume "\<not> 0 < k"
    then have "of_int k \<le> (0::real)" by simp
    then have "of_int k * 2 powi b \<le> (0::real)" using bpos by (simp add: mult_le_0_iff)
    with pk pos show False by simp
  qed
  have lo: "2 powi (- 1074) \<le> p"
  proof -
    have "(2::real) powi (- 1074) \<le> 2 powi b"
      by (rule power_int_increasing) (simp_all add: b_def)
    also have "\<dots> \<le> of_int k * 2 powi b" using kpos bpos by simp
    finally show ?thesis using pk by simp
  qed
  have E1: "E \<le> - 1"
  proof -
    have "log 2 p < 0" using pos lt by simp
    then show ?thesis unfolding E_def by linarith
  qed
  have hi: "p \<le> 1 - 2 powi (- 53)"
  proof (cases "E - 52 \<ge> - 1074")
    case True
    then have bE: "b = E - 52" by (simp add: b_def)
    have "of_int k * 2 powi (E - 52) < (2::real) powi (E + 1)" using br(2) pk bE by simp
    moreover note two_powi_shift(1) [of E]
    ultimately have "of_int k * 2 powi (E - 52) < (2::real) powi 53 * 2 powi (E - 52)"
      by (simp only:)
    then have "of_int k < (2::real) powi 53" by (simp only: mult_less_cancel_right_pos bpos [unfolded bE])
    then have "of_int k < (of_int (2 ^ 53) :: real)" by simp
    then have "k < 2 ^ 53" by (simp only: of_int_less_iff)
    then have "k \<le> 2 ^ 53 - 1" by simp
    then have "(of_int k :: real) \<le> of_int (2 ^ 53 - 1)" by (simp only: of_int_le_iff)
    then have "(of_int k :: real) \<le> 2 powi 53 - 1" by simp
    then have "of_int k * 2 powi (E - 52) \<le> (2 powi 53 - 1) * (2::real) powi (E - 52)"
      by (rule mult_right_mono) simp
    also have "\<dots> = 2 powi 53 * 2 powi (E - 52) - 2 powi (E - 52)"
      by (simp only: left_diff_distrib mult_1)
    also have "\<dots> = 2 powi (E + 1) - 2 powi (E + 1) * 2 powi (- 53)"
      using two_powi_shift [of E] by (simp only:)
    also have "\<dots> = 2 powi (E + 1) * (1 - 2 powi (- 53))"
      by (simp only: right_diff_distrib mult_1_right)
    also have "\<dots> \<le> 1 * (1 - 2 powi (- 53))"
    proof (rule mult_right_mono)
      have "(2::real) powi (E + 1) \<le> 2 powi 0"
        by (rule power_int_increasing) (use E1 in simp_all)
      then show "(2::real) powi (E + 1) \<le> 1" by simp
      show "(0::real) \<le> 1 - 2 powi (- 53)" by simp
    qed
    finally show ?thesis using pk bE by simp
  next
    case False
    then have "E + 1 \<le> - 1" by simp
    then have "(2::real) powi (E + 1) \<le> 2 powi (- 1)"
      by (intro power_int_increasing) simp_all
    with br(2) have "p < 2 powi (- 1)" by simp
    then show ?thesis by simp
  qed
  from lo hi show ?thesis by blast
qed

lemma two_powi_nonpos:
  assumes "B \<le> 0"
  shows "(2::real) powi B = 1 / 2 ^ nat (- B)"
  using assms by (auto simp: power_int_def power_one_over)

lemma two_powi_half: "(2::real) powi B / 2 = 2 powi (B + 1) * 2 powi (- 2)"
proof -
  have "(2::real) powi (B + 1) = 2 powi B * 2 powi 1" by (rule two_powi_add)
  then show ?thesis by simp
qed

lemma js_times_in_range:
  fixes n :: nat
  assumes d: "to_double p = p" and pos: "0 < p" and lt: "p < 1"
    and n0: "0 < n" and n53: "n < 2 ^ 53"
  shows "0 < js_times (real n) p \<and> js_times (real n) p < real n"
proof -
  from double_below_one [OF d pos lt]
  have lo: "2 powi (- 1074) \<le> p" and hi: "p \<le> 1 - 2 powi (- 53)" by blast+
  define v where "v = real n * p"
  define E where "E = \<lfloor>log 2 v\<rfloor>"
  define B where "B = max (E - 52) (- 1074)"
  define u where "u = (2::real) powi B"
  define w where "w = v / u"
  have n1: "1 \<le> real n" using n0 by simp
  have vpos: "0 < v" unfolding v_def using pos n0 by simp
  have vp: "p \<le> v"
  proof -
    have "1 * p \<le> real n * p" by (rule mult_right_mono) (use n1 pos in simp_all)
    then show ?thesis by (simp add: v_def)
  qed
  have vn: "v < real n" unfolding v_def using lt n0 by simp
  have gap: "real n * 2 powi (- 53) \<le> real n - v"
  proof -
    have "real n * p \<le> real n * (1 - 2 powi (- 53))"
      by (rule mult_left_mono) (use hi in simp_all)
    then show ?thesis unfolding v_def by (simp only: right_diff_distrib mult_1_right)
  qed
  have br: "2 powi E \<le> v" "v < 2 powi (E + 1)"
    using floor_log2_bracket [OF vpos] unfolding E_def by blast+
  have upos: "0 < u" by (simp add: u_def)
  have E53: "E < 53"
  proof (rule ccontr)
    assume "\<not> E < 53"
    then have "(2::real) powi 53 \<le> 2 powi E" by (intro power_int_increasing) simp_all
    with br(1) vn have "(2::real) powi 53 < real n" by linarith
    moreover have "real n < real (2 ^ 53)" using n53 by (simp only: of_nat_less_iff)
    ultimately show False by simp
  qed
  then have B0: "B \<le> 0" by (simp add: B_def)
  have jt: "js_times (real n) p = of_int (round_half_even w) * u"
    using vpos unfolding js_times_def to_double_def ulp_exponent_def
    by (simp add: v_def [symmetric] E_def [symmetric] B_def [symmetric] u_def w_def)
  define N where "N = int n * 2 ^ nat (- B)"
  have Nu: "of_int N = real n / u"
    unfolding N_def u_def two_powi_nonpos [OF B0] by simp
  have half: "u / 2 < real n * 2 powi (- 53)"
  proof (cases "- 1074 \<le> E - 52")
    case True
    then have "B = E - 52" by (simp add: B_def)
    then have "u / 2 = 2 powi (E - 52) / 2" by (simp add: u_def)
    also have "\<dots> = 2 powi (E + 1) * 2 powi (- 53) / 2"
      by (simp only: two_powi_shift(2))
    also have "\<dots> = 2 powi E * 2 powi (- 53)"
    proof -
      have "(2::real) powi (E + 1) = 2 powi E * 2 powi 1" by (rule two_powi_add)
      then show ?thesis by simp
    qed
    also have "\<dots> \<le> v * 2 powi (- 53)"
      by (rule mult_right_mono) (use br(1) in simp_all)
    also have "\<dots> < real n * 2 powi (- 53)"
      by (rule mult_strict_right_mono) (use vn in simp_all)
    finally show ?thesis .
  next
    case False
    then have "B = - 1074" by (simp add: B_def)
    then have "u / 2 = 2 powi (- 1074) / 2" by (simp add: u_def)
    also have "\<dots> < 1 * 2 powi (- 53)" by simp
    also have "\<dots> \<le> real n * 2 powi (- 53)"
      by (rule mult_right_mono) (use n1 in simp_all)
    finally show ?thesis .
  qed
  have below: "w < of_int N - 1 / 2"
  proof -
    have "u / 2 < real n - v" using half gap by linarith
    then have "(u / 2) / u < (real n - v) / u" using upos by (simp only: divide_strict_right_mono)
    moreover have "(u / 2) / u = 1 / 2" using upos by simp
    moreover have "(real n - v) / u = of_int N - w" by (simp add: Nu w_def diff_divide_distrib)
    ultimately show ?thesis by linarith
  qed
  have above: "1 \<le> w"
  proof (cases "- 1074 \<le> E - 52")
    case True
    then have BE: "B = E - 52" by (simp add: B_def)
    have "(2::real) powi E \<le> 2 powi (E + 1)" by (intro power_int_increasing) simp_all
    have "u * 1 \<le> u * 2 powi 52" using upos by (intro mult_left_mono) simp_all
    also have "\<dots> = 2 powi E"
    proof -
      have "E = (E - 52) + 52" by simp
      then have "(2::real) powi E = 2 powi (E - 52) * 2 powi 52"
        by (metis two_powi_add)
      then show ?thesis by (simp only: u_def BE)
    qed
    finally have "u \<le> v" using br(1) by simp
    then show ?thesis unfolding w_def using upos by simp
  next
    case False
    then have "B = - 1074" by (simp add: B_def)
    then have "u \<le> v" using lo vp by (simp add: u_def)
    then show ?thesis unfolding w_def using upos by simp
  qed
  have r1: "round_half_even w \<le> N - 1" by (rule round_half_even_below [OF below])
  have r2: "1 \<le> round_half_even w" using round_half_even_ge [of 1 w] above by simp
  have "0 < of_int (round_half_even w) * u"
    using r2 upos by simp
  moreover have "of_int (round_half_even w) * u < real n"
  proof -
    have "(of_int (round_half_even w) :: real) \<le> of_int (N - 1)"
      using r1 by (simp only: of_int_le_iff)
    then have "of_int (round_half_even w) * u \<le> of_int (N - 1) * u"
      using upos by (intro mult_right_mono) simp_all
    also have "\<dots> = real n - u" using upos by (simp add: Nu left_diff_distrib)
    also have "\<dots> < real n" using upos by simp
    finally show ?thesis .
  qed
  ultimately show ?thesis unfolding jt by blast
qed

text \<open>Products, sums and quotients used in the examples.\<close>

lemma to_double_examples:
  "to_double (6004799503160661 / 18014398509481984) = 6004799503160661 / 18014398509481984"
  "to_double (5404319552844595 / 18014398509481984) = 5404319552844595 / 18014398509481984"
  using to_double_bracket [of "- 2" "6004799503160661 / 18014398509481984"]
    to_double_bracket [of "- 2" "5404319552844595 / 18014398509481984"]
  by (simp_all add: round_half_even_def)

lemma js_times_examples:
  "js_times 3 (6004799503160661 / 18014398509481984) = 1"
  "js_times 5 (3602879701896397 / 18014398509481984) = 1"
  "js_times 10 (5404319552844595 / 18014398509481984) = 3"
  "js_times 4 (3 / 8) = 3 / 2"
  "js_times 5 (7 / 10) = 7 / 2"
  "js_times 3 (1 / 2) = 3 / 2"
  unfolding js_times_def
  using to_double_bracket [of "- 1" "3 * (6004799503160661 / 18014398509481984)"]
    to_double_bracket [of 0 "5 * (3602879701896397 / 18014398509481984)"]
    to_double_bracket [of 1 "10 * (5404319552844595 / 18014398509481984)"]
    to_double_bracket [of 0 "4 * (3 / 8)"]
    to_double_bracket [of 1 "5 * (7 / 10)"]
    to_double_bracket [of 0 "3 * (1 / 2)"]
  by (simp_all add: round_half_even_def)

lemma js_mean_example: "js_divide (js_plus 3 4) 2 = 7 / 2"
proof -
  have "js_plus 3 4 = 7"
    unfolding js_plus_def using to_double_bracket [of 2 "3 + 4"]
    by (simp add: round_half_even_def)
  moreover have "js_divide 7 2 = 7 / 2"
    unfolding js_divide_def using to_double_bracket [of 1 "7 / 2"]
    by (simp add: round_half_even_def)
  ultimately show ?thesis by simp
qed

subsection \<open>quantileSorted\<close>

text \<open>
  Claim C4, as amended. For a non-empty array \<open>x\<close> of length \<open>n\<close> and \<open>p\<close> in \<open>[0, 1]\<close>,
  \<open>quantileSorted x p\<close> returns the last element if \<open>p = 1\<close> and the first if \<open>p = 0\<close>;
  otherwise, with \<open>idx\<close> the product \<open>n * p\<close> as the double the code computes: the
  element \<open>x[ceil(idx) - 1]\<close> when \<open>idx\<close> is not an integer, the mean
  \<open>(x[idx - 1] + x[idx]) / 2\<close> (a sum and a quotient of doubles, the sum below the
  overflow threshold) when \<open>idx\<close> is an integer and \<open>n\<close> is even, and \<open>x[idx]\<close> when
  \<open>idx\<close> is an integer and \<open>n\<close> is odd. For a double \<open>p\<close> strictly between \<open>0\<close> and \<open>1\<close>
  and an array of fewer than \<open>2 ^ 32\<close> elements, \<open>0 < idx < n\<close>, so every index read
  lies inside the array.
\<close>

theorem quantileSorted_cases:
  fixes x :: "real list" and p :: real
  defines "idx \<equiv> js_times (real (length x)) p"
  assumes "x \<noteq> []" and "0 \<le> p" and "p \<le> 1"
  shows "(p = 1 \<longrightarrow> quantileSorted x p = Inr (last x)) \<and>
         (p = 0 \<longrightarrow> quantileSorted x p = Inr (hd x)) \<and>
         (0 < p \<and> p < 1 \<and> idx \<notin> \<int> \<longrightarrow> quantileSorted x p = Inr (x ! nat (\<lceil>idx\<rceil> - 1))) \<and>
         (\<forall>i::nat. 0 < p \<and> p < 1 \<and> idx = real i \<and> even (length x) \<and>
              \<bar>x ! (i - 1) + x ! i\<bar> < 2 ^ 1023 \<longrightarrow>
            quantileSorted x p = Inr (js_divide (js_plus (x ! (i - 1)) (x ! i)) 2)) \<and>
         (\<forall>i::nat. 0 < p \<and> p < 1 \<and> idx = real i \<and> odd (length x) \<longrightarrow>
            quantileSorted x p = Inr (x ! i)) \<and>
         (0 < p \<and> p < 1 \<and> to_double p = p \<and> length x < 2 ^ 32 \<longrightarrow>
            0 < idx \<and> idx < real (length x))"
proof (intro conjI impI allI)
  assume "p = 1"
  with assms(2) show "quantileSorted x p = Inr (last x)"
    by (simp add: quantileSorted_def last_conv_nth)
next
  assume "p = 0"
  with assms(2) show "quantileSorted x p = Inr (hd x)"
    by (simp add: quantileSorted_def hd_conv_nth)
next
  assume h: "0 < p \<and> p < 1 \<and> idx \<notin> \<int>"
  then have "frac idx \<noteq> 0" by (simp add: frac_eq_0_iff)
  with h assms(2) show "quantileSorted x p = Inr (x ! nat (\<lceil>idx\<rceil> - 1))"
    by (simp add: quantileSorted_def idx_def [symmetric])
next
  fix i :: nat
  assume h: "0 < p \<and> p < 1 \<and> idx = real i \<and> even (length x) \<and> \<bar>x ! (i - 1) + x ! i\<bar> < 2 ^ 1023"
  then have "frac idx = 0" by (simp add: frac_eq_0_iff)
  moreover have "nat (\<lfloor>real i\<rfloor> - 1) = i - 1" by simp
  ultimately show "quantileSorted x p = Inr (js_divide (js_plus (x ! (i - 1)) (x ! i)) 2)"
    using h assms(2) by (simp add: quantileSorted_def idx_def [symmetric])
next
  fix i :: nat
  assume h: "0 < p \<and> p < 1 \<and> idx = real i \<and> odd (length x)"
  then have "frac idx = 0" by (simp add: frac_eq_0_iff)
  with h assms(2) show "quantileSorted x p = Inr (x ! i)"
    by (simp add: quantileSorted_def idx_def [symmetric] Let_def even_iff_mod_2_eq_zero)
next
  assume h: "0 < p \<and> p < 1 \<and> to_double p = p \<and> length x < 2 ^ 32"
  then have "length x < 2 ^ 53" by simp
  moreover from assms(2) have "0 < length x" by simp
  ultimately have "0 < idx \<and> idx < real (length x)"
    unfolding idx_def using h by (intro js_times_in_range) simp_all
  then show "0 < idx" and "idx < real (length x)" by simp_all
qed

theorem quantileSorted_cases_witness:
  "quantileSorted [1, 2, 3] 1 = Inr 3 \<and>
   quantileSorted [1, 2, 3] 0 = Inr 1 \<and>
   js_times (real (length [1, 2, 3, 4 :: real])) (3 / 8) \<notin> \<int> \<and>
   quantileSorted [1, 2, 3, 4] (3 / 8) = Inr 2 \<and>
   js_times (real (length [1, 2, 3, 4, 5, 6, 7, 8, 9, 10 :: real]))
     (5404319552844595 / 18014398509481984) = real (3 :: nat) \<and>
   quantileSorted [1, 2, 3, 4, 5, 6, 7, 8, 9, 10] (5404319552844595 / 18014398509481984) =
     Inr (7 / 2) \<and>
   js_times (real (length [1, 2, 3, 4, 5 :: real])) (3602879701896397 / 18014398509481984) =
     real (1 :: nat) \<and>
   quantileSorted [1, 2, 3, 4, 5] (3602879701896397 / 18014398509481984) = Inr 2 \<and>
   to_double (5404319552844595 / 18014398509481984) = 5404319552844595 / 18014398509481984 \<and>
   0 < js_times (real (length [1, 2, 3, 4, 5, 6, 7, 8, 9, 10 :: real]))
     (5404319552844595 / 18014398509481984)"
  using quantileSorted_cases [of "[1, 2, 3]" 1] quantileSorted_cases [of "[1, 2, 3]" 0]
    quantileSorted_cases [of "[1, 2, 3, 4]" "3 / 8"]
    quantileSorted_cases [of "[1, 2, 3, 4, 5, 6, 7, 8, 9, 10]"
      "5404319552844595 / 18014398509481984"]
    quantileSorted_cases [of "[1, 2, 3, 4, 5]" "3602879701896397 / 18014398509481984"]
  by (simp add: js_times_examples to_double_examples js_mean_example frac_eq_0_iff [symmetric]
      frac_def)

text \<open>
  The case the claim misses: \<open>x = [1, 2, 3]\<close> and the double nearest to \<open>1/3\<close>,
  \<open>p = 6004799503160661 / 2 ^ 54\<close>. The product \<open>3 * p\<close> rounds to the integer
  \<open>idx = 1\<close> and \<open>n = 3\<close> is odd; the result is \<open>x[1] = 2\<close>, not \<open>x[ceil(idx) - 1] = 1\<close>.
\<close>

theorem quantileSorted_odd_length_counterexample:
  "sorted [1, 2, 3 :: real] \<and>
   (18014398509481984 :: real) = 2 ^ 54 \<and>
   to_double (6004799503160661 / 18014398509481984) = 6004799503160661 / 18014398509481984 \<and>
   js_times (real (length [1, 2, 3 :: real])) (6004799503160661 / 18014398509481984) = 1 \<and>
   odd (length [1, 2, 3 :: real]) \<and>
   quantileSorted [1, 2, 3] (6004799503160661 / 18014398509481984) = Inr 2 \<and>
   [1, 2, 3 :: real] !
     nat (\<lceil>js_times (real (length [1, 2, 3 :: real])) (6004799503160661 / 18014398509481984)\<rceil> - 1) = 1"
  by (simp add: quantileSorted_def js_times_examples to_double_examples)

subsection \<open>Evaluation of the selection routines\<close>

lemmas select_eval = quickselect_def quantileSelect_def partition_pass_def swap_def in_bounds_def
  js_or_def hoare_loop.simps scan_up.simps scan_down.simps quantileIndex_def
  quickselect_while.simps

text \<open>The example of the doc comment of \<^verbatim>\<open>quickselect\<close>.\<close>

lemma quickselect_doc_example:
  "quickselect [65, 28, 59, 33, 21, 56, 22, 95, 50, 12, 90, 53, 28, 77, 39] 8 0 0 =
     Some [39, 28, 28, 33, 21, 12, 22, 50, 53, 56, 59, 65, 90, 77, 95]"
  by (simp add: select_eval)

subsection \<open>quantile and quantileArray\<close>

text \<open>
  Claim C8 (the code departs from it). For \<open>x = [1, 5, 4, 3, 2]\<close> and
  \<open>p = [0, 0.7]\<close> the multi-quantile path returns \<open>[2, 4]\<close>, while the
  single-quantile path returns \<open>1\<close> for \<open>p = 0\<close> and \<open>4\<close> for \<open>p = 0.7\<close>:
  the second selection (index 3 over the whole range) moves the minimum away from
  index 0, and nothing selects index 0 again.
\<close>

theorem quantileArray_differs_from_quantile:
  "map_option fst (quantileArray (single_array [1, 5, 4, 3, 2]) 0 [0, 7 / 10]) = Some (Inr [2, 4]) \<and>
   map_option fst (quantile (single_array [1, 5, 4, 3, 2]) 0 0) = Some (Inr 1) \<and>
   map_option fst (quantile (single_array [1, 5, 4, 3, 2]) 0 (7 / 10)) = Some (Inr 4)"
  by (simp add: quantileArray_def quantile_def single_array_def slice_def in_place_def
      multiQuantileSelect_def multiQuantileSelect_while.simps select_eval quantileSorted_def
      js_times_examples)

text \<open>
  The same outcome at the double nearest to \<open>0.7\<close>, \<open>3152519739159347 / 2 ^ 52\<close>: the
  product \<open>5 * p\<close> is \<open>3.5 - 2 ^ -52\<close>, a tie that rounds to \<open>3.5\<close>.
\<close>

lemma js_times_double_seven_tenths:
  "js_times 5 (3152519739159347 / 4503599627370496) = 7 / 2"
  unfolding js_times_def
  using to_double_bracket [of 1 "5 * (3152519739159347 / 4503599627370496)"]
  by (simp add: round_half_even_def)

lemma quantileArray_at_double_seven_tenths:
  "(4503599627370496 :: real) = 2 ^ 52 \<and>
   to_double (3152519739159347 / 4503599627370496) = 3152519739159347 / 4503599627370496 \<and>
   map_option fst (quantileArray (single_array [1, 5, 4, 3, 2]) 0
      [0, 3152519739159347 / 4503599627370496]) = Some (Inr [2, 4]) \<and>
   map_option fst (quantile (single_array [1, 5, 4, 3, 2]) 0 0) = Some (Inr 1) \<and>
   map_option fst (quantile (single_array [1, 5, 4, 3, 2]) 0
      (3152519739159347 / 4503599627370496)) = Some (Inr 4)"
proof -
  have "to_double (3152519739159347 / 4503599627370496) = 3152519739159347 / 4503599627370496"
    using to_double_bracket [of "- 1" "3152519739159347 / 4503599627370496"]
    by (simp add: round_half_even_def)
  then show ?thesis
    by (simp add: quantileArray_def quantile_def single_array_def slice_def in_place_def
        multiQuantileSelect_def multiQuantileSelect_while.simps select_eval quantileSorted_def
        js_times_double_seven_tenths)
qed

lemma quantile_frame:
  assumes "x < limit h" and "quantile h x p = Some (r, h')"
  shows "contents h' x = contents h x"
  using assms
  by (auto simp: quantile_def slice_def in_place_def Let_def split: prod.splits Option.bind_splits)

lemma quantileArray_frame:
  assumes "x < limit h" and "quantileArray h x ps = Some (rs, h')"
  shows "contents h' x = contents h x"
  using assms
  by (auto simp: quantileArray_def slice_def in_place_def Let_def split: prod.splits Option.bind_splits)

text \<open>
  Claim C10. Whenever \<open>quantile\<close> or \<open>quantileArray\<close> returns (a value or an
  exception), the array \<open>x\<close> it was called on holds the same elements in the same
  order as before the call: all mutation goes to the copy made by \<^verbatim>\<open>x.slice()\<close>.
\<close>

theorem quantile_leaves_input_unchanged:
  assumes "x < limit h"
  shows "(\<forall>r h'. quantile h x p = Some (r, h') \<longrightarrow> contents h' x = contents h x) \<and>
         (\<forall>rs h'. quantileArray h x ps = Some (rs, h') \<longrightarrow> contents h' x = contents h x)"
  using assms quantile_frame quantileArray_frame by blast

theorem quantile_leaves_input_unchanged_witness:
  "(0 :: addr) < limit (single_array [3, 1, 2]) \<and>
   (\<exists>h'. quantile (single_array [3, 1, 2]) 0 (1 / 2) = Some (Inr 2, h') \<and>
         contents h' 0 = [3, 1, 2] \<and> contents h' 1 = [1, 2, 3]) \<and>
   (\<exists>h'. quantileArray (single_array [3, 1, 2]) 0 [1 / 2, 1] = Some (Inr [2, 3], h') \<and>
         contents h' 0 = [3, 1, 2] \<and> contents h' 1 = [1, 2, 3])"
proof -
  let ?h = "single_array [3, 1, 2]"
  have lim: "(0 :: addr) < limit ?h" by (simp add: single_array_def)
  obtain h1 where q: "quantile ?h 0 (1 / 2) = Some (Inr 2, h1)" and c1: "contents h1 1 = [1, 2, 3]"
    by (simp add: quantile_def single_array_def slice_def in_place_def select_eval
        quantileSorted_def js_times_examples)
  obtain h2 where qa: "quantileArray ?h 0 [1 / 2, 1] = Some (Inr [2, 3], h2)"
    and c2: "contents h2 1 = [1, 2, 3]"
    by (simp add: quantileArray_def single_array_def slice_def in_place_def
        multiQuantileSelect_def multiQuantileSelect_while.simps select_eval quantileSorted_def
        js_times_examples)
  from quantile_leaves_input_unchanged [OF lim, of "1 / 2" "[1 / 2, 1]"] q qa
  have "contents h1 0 = contents ?h 0" and "contents h2 0 = contents ?h 0" by blast+
  then have "contents h1 0 = [3, 1, 2]" and "contents h2 0 = [3, 1, 2]"
    by (simp_all add: single_array_def)
  with lim q qa c1 c2 show ?thesis by blast
qed

subsection \<open>quickselect: one partition pass\<close>

lemma swap_Some:
  assumes "in_bounds a i" and "in_bounds a j"
  shows "swap a i j = Some (a[nat i := a ! nat j, nat j := a ! nat i])"
  using assms by (simp add: swap_def)

lemma swap_props:
  assumes "swap a i j = Some a'"
  shows "length a' = length a" and "mset a' = mset a"
    and "a' ! nat i = a ! nat j" and "a' ! nat j = a ! nat i"
    and "\<And>x. x \<noteq> nat i \<Longrightarrow> x \<noteq> nat j \<Longrightarrow> a' ! x = a ! x"
    and "in_bounds a i" and "in_bounds a j"
proof -
  from assms have b: "in_bounds a i" "in_bounds a j"
    and a': "a' = a[nat i := a ! nat j, nat j := a ! nat i]"
    by (auto simp: swap_def split: if_splits)
  from b have n: "nat i < length a" "nat j < length a" by (auto simp: in_bounds_def)
  show "in_bounds a i" "in_bounds a j" by fact+
  show "length a' = length a" by (simp add: a')
  show "mset a' = mset a" unfolding a' using n by (simp add: mset_swap)
  show "a' ! nat i = a ! nat j" unfolding a' using n by (simp add: nth_list_update)
  show "a' ! nat j = a ! nat i" unfolding a' using n by (simp add: nth_list_update)
  show "\<And>x. x \<noteq> nat i \<Longrightarrow> x \<noteq> nat j \<Longrightarrow> a' ! x = a ! x" unfolding a' by simp
qed

lemma scan_up_spec:
  "i \<le> scan_up a t i \<and>
   (\<forall>x. i \<le> x \<and> x < scan_up a t i \<longrightarrow> in_bounds a x \<and> a ! nat x < t) \<and>
   \<not> (in_bounds a (scan_up a t i) \<and> a ! nat (scan_up a t i) < t)"
proof (induction a t i rule: scan_up.induct)
  case (1 arr t i)
  show ?case
  proof (cases "in_bounds arr i \<and> arr ! nat i < t")
    case True
    then have eq: "scan_up arr t i = scan_up arr t (i + 1)" by (subst scan_up.simps) simp
    from 1 [OF True] True show ?thesis
      unfolding eq by (metis add.commute less_le_not_le linorder_not_less zless_add1_eq zle_add1_eq_le order_le_less)
  next
    case False
    then have eq: "scan_up arr t i = i" by (subst scan_up.simps) auto
    from False show ?thesis unfolding eq by auto
  qed
qed

lemma scan_down_spec:
  "scan_down a t j \<le> j \<and>
   (\<forall>x. scan_down a t j < x \<and> x \<le> j \<longrightarrow> in_bounds a x \<and> t < a ! nat x) \<and>
   \<not> (in_bounds a (scan_down a t j) \<and> t < a ! nat (scan_down a t j))"
proof (induction a t j rule: scan_down.induct)
  case (1 arr t j)
  show ?case
  proof (cases "in_bounds arr j \<and> arr ! nat j > t")
    case True
    then have eq: "scan_down arr t j = scan_down arr t (j - 1)" by (subst scan_down.simps) simp
    have "\<And>x. scan_down arr t (j - 1) < x \<and> x \<le> j \<Longrightarrow> x \<le> j - 1 \<or> x = j" by linarith
    with 1 [OF True] True show ?thesis
      unfolding eq by (smt (verit, best))
  next
    case False
    then have eq: "scan_down arr t j = j" by (subst scan_down.simps) auto
    from False show ?thesis unfolding eq by auto
  qed
qed

lemma scan_up_le:
  assumes "i \<le> b" and "\<not> (in_bounds a b \<and> a ! nat b < t)"
  shows "scan_up a t i \<le> b"
  using scan_up_spec [of i a t] assms by (meson linorder_not_less)

lemma scan_down_ge:
  assumes "b \<le> j" and "\<not> (in_bounds a b \<and> t < a ! nat b)"
  shows "b \<le> scan_down a t j"
  using scan_down_spec [of a t j] assms by (meson linorder_not_less)

lemma hoare_loop_spec:
  assumes "hoare_inv a t left right i j"
  shows "\<exists>a' i' j'. hoare_loop a t i j = Some (a', i', j') \<and>
           hoare_inv a' t left right i' j' \<and> j' \<le> i' \<and> i \<le> i' \<and> j' \<le> j \<and>
           length a' = length a \<and> mset a' = mset a \<and>
           (\<forall>x::nat. int x < i \<or> j < int x \<longrightarrow> a' ! x = a ! x) \<and>
           (i < j \<longrightarrow> i < i' \<and> j' < j \<and> a' ! nat i = a ! nat j \<and> a' ! nat j = a ! nat i)"
  using assms
proof (induction a t i j rule: hoare_loop.induct)
  case (1 arr t i j)
  note inv = "1.prems"
  show ?case
  proof (cases "i < j")
    case False
    then have "hoare_loop arr t i j = Some (arr, i, j)" by (subst hoare_loop.simps) simp
    with inv False show ?thesis by auto
  next
    case True
    from inv have bi: "in_bounds arr i" and bj: "in_bounds arr j"
      by (auto simp: hoare_inv_def in_bounds_def)
    define a1 where "a1 = arr[nat i := arr ! nat j, nat j := arr ! nat i]"
    have sw: "swap arr i j = Some a1" unfolding a1_def by (rule swap_Some [OF bi bj])
    note sp = swap_props [OF sw]
    define i1 where "i1 = scan_up a1 t (i + 1)"
    define j1 where "j1 = scan_down a1 t (j - 1)"
    from inv have left0: "0 \<le> left" and rlen: "right < int (length arr)"
      and li: "left \<le> i" and jr: "j \<le> right"
      and low: "\<And>x. left \<le> x \<Longrightarrow> x < i \<Longrightarrow> arr ! nat x \<le> t"
      and high: "\<And>x. j < x \<Longrightarrow> x \<le> right \<Longrightarrow> t \<le> arr ! nat x"
      and ti: "t \<le> arr ! nat i" and tj: "arr ! nat j \<le> t"
      by (auto simp: hoare_inv_def)
    have a1i: "a1 ! nat i \<le> t" using sp(3) tj by simp
    have a1j: "t \<le> a1 ! nat j" using sp(4) ti by simp
    have b1i: "in_bounds a1 i" and b1j: "in_bounds a1 j"
      using bi bj sp(1) by (auto simp: in_bounds_def)
    have other: "a1 ! nat x = arr ! nat x" if "0 \<le> x" "x \<noteq> i" "x \<noteq> j" for x
      using sp(5) [of "nat x"] that bi bj by (auto simp: in_bounds_def)
    have us: "i + 1 \<le> i1" "\<And>x. i + 1 \<le> x \<Longrightarrow> x < i1 \<Longrightarrow> a1 ! nat x < t"
      "\<not> (in_bounds a1 i1 \<and> a1 ! nat i1 < t)"
      using scan_up_spec [of "i + 1" a1 t] unfolding i1_def by auto
    have ds: "j1 \<le> j - 1" "\<And>x. j1 < x \<Longrightarrow> x \<le> j - 1 \<Longrightarrow> t < a1 ! nat x"
      "\<not> (in_bounds a1 j1 \<and> t < a1 ! nat j1)"
      using scan_down_spec [of a1 t "j - 1"] unfolding j1_def by auto
    have i1j: "i1 \<le> j" unfolding i1_def
      using True a1j b1j by (intro scan_up_le) auto
    have j1i: "i \<le> j1" unfolding j1_def
      using True a1i b1i by (intro scan_down_ge) auto
    have bi1: "in_bounds a1 i1" using us(1) i1j b1i b1j by (auto simp: in_bounds_def)
    have bj1: "in_bounds a1 j1" using ds(1) j1i b1i b1j by (auto simp: in_bounds_def)
    have inv1: "hoare_inv a1 t left right i1 j1"
      unfolding hoare_inv_def
    proof (intro conjI allI impI)
      show "0 \<le> left" by fact
      show "right < int (length a1)" using rlen sp(1) by simp
      show "left \<le> i1" using li us(1) by simp
      show "i1 \<le> right" using i1j jr by simp
      show "left \<le> j1" using li j1i by simp
      show "j1 \<le> right" using ds(1) jr by simp
      show "t \<le> a1 ! nat i1" using us(3) bi1 by auto
      show "a1 ! nat j1 \<le> t" using ds(3) bj1 by auto
    next
      fix x assume x: "left \<le> x \<and> x < i1"
      consider "x < i" | "x = i" | "i + 1 \<le> x" by linarith
      then show "a1 ! nat x \<le> t"
      proof cases
        case 1
        with x left0 True have "a1 ! nat x = arr ! nat x" by (intro other) auto
        with low [of x] x 1 show ?thesis by simp
      next
        case 2
        with a1i show ?thesis by simp
      next
        case 3
        with us(2) [of x] x show ?thesis by simp
      qed
    next
      fix x assume x: "j1 < x \<and> x \<le> right"
      consider "j < x" | "x = j" | "x \<le> j - 1" by linarith
      then show "t \<le> a1 ! nat x"
      proof cases
        case 1
        with x left0 li True have "a1 ! nat x = arr ! nat x" by (intro other) auto
        with high [of x] x 1 show ?thesis by simp
      next
        case 2
        with a1j show ?thesis by simp
      next
        case 3
        with ds(2) [of x] x show ?thesis by simp
      qed
    qed
    from "1.IH" [OF True sw inv1 [unfolded i1_def j1_def]]
    obtain a' i' j' where res: "hoare_loop a1 t i1 j1 = Some (a', i', j')"
      and inv': "hoare_inv a' t left right i' j'" and fin: "j' \<le> i'" "i1 \<le> i'" "j' \<le> j1"
      and len: "length a' = length a1" and ms: "mset a' = mset a1"
      and frame: "\<And>x::nat. int x < i1 \<or> j1 < int x \<Longrightarrow> a' ! x = a1 ! x"
      unfolding i1_def j1_def by blast
    have unfold: "hoare_loop arr t i j = hoare_loop a1 t i1 j1"
      using True sw unfolding i1_def j1_def by (subst hoare_loop.simps) simp
    have fi: "a' ! nat i = arr ! nat j"
      using frame [of "nat i"] us(1) bi sp(3) by (auto simp: in_bounds_def)
    have fj: "a' ! nat j = arr ! nat i"
      using frame [of "nat j"] ds(1) bj sp(4) by (auto simp: in_bounds_def)
    have fr: "a' ! x = arr ! x" if "int x < i \<or> j < int x" for x :: nat
    proof -
      from that us(1) ds(1) have "a' ! x = a1 ! x" by (intro frame) auto
      moreover have "x \<noteq> nat i"
      proof
        assume "x = nat i"
        with bi have "int x = i" by (simp add: in_bounds_def)
        with that True show False by linarith
      qed
      moreover have "x \<noteq> nat j"
      proof
        assume "x = nat j"
        with bj have "int x = j" by (simp add: in_bounds_def)
        with that True show False by linarith
      qed
      ultimately show ?thesis using sp(5) [of x] by simp
    qed
    show ?thesis
      unfolding unfold res
      using inv' fin us(1) ds(1) len ms sp(1,2) fi fj fr by auto
  qed
qed

lemma outside_neq:
  assumes "0 \<le> l" and "l \<le> p" and "p \<le> r" and "int x < l \<or> r < int x"
  shows "x \<noteq> nat p"
proof
  assume "x = nat p"
  with assms(1,2) have "int x = p" by simp
  with assms show False by linarith
qed

lemma inside_neq:
  assumes "0 \<le> x" and "0 \<le> p" and "x \<noteq> p"
  shows "nat x \<noteq> nat p"
  using assms by simp

lemma partition_pass_spec:
  assumes "0 \<le> left" and "left < right" and "right < int (length arr)"
    and "left \<le> k" and "k \<le> right"
  shows "\<exists>arr' j. partition_pass arr k left right = Some (arr', j) \<and>
           length arr' = length arr \<and> mset arr' = mset arr \<and> left \<le> j \<and> j \<le> right \<and>
           arr' ! nat j = arr ! nat k \<and>
           (\<forall>x. left \<le> x \<and> x < j \<longrightarrow> arr' ! nat x \<le> arr ! nat k) \<and>
           (\<forall>x. j < x \<and> x \<le> right \<longrightarrow> arr ! nat k \<le> arr' ! nat x) \<and>
           (\<forall>x::nat. int x < left \<or> right < int x \<longrightarrow> arr' ! x = arr ! x)"
proof -
  define t where "t = arr ! nat k"
  have bk: "in_bounds arr k" and bl: "in_bounds arr left" and br: "in_bounds arr right"
    using assms by (auto simp: in_bounds_def)
  have out: "x \<noteq> nat p" if "int x < left \<or> right < int x" "left \<le> p" "p \<le> right" for x p
    using outside_neq [OF assms(1) that(2,3,1)] .
  have ins: "nat x \<noteq> nat p" if "left \<le> x" "left \<le> p" "x \<noteq> p" for x p
    using that assms(1) by (intro inside_neq) linarith+
  define a1 where "a1 = arr[nat left := arr ! nat k, nat k := arr ! nat left]"
  have sw1: "swap arr left k = Some a1" unfolding a1_def by (rule swap_Some [OF bl bk])
  note s1 = swap_props [OF sw1]
  have len1: "length a1 = length arr" by (rule s1(1))
  have b1l: "in_bounds a1 left" and b1r: "in_bounds a1 right"
    using bl br len1 by (auto simp: in_bounds_def)
  have a1l: "a1 ! nat left = t" using s1(3) by (simp add: t_def)
  have fr1: "a1 ! x = arr ! x" if "int x < left \<or> right < int x" for x :: nat
  proof -
    have "x \<noteq> nat left" "x \<noteq> nat k"
      using assms by (intro out [OF that]; linarith)+
    then show ?thesis by (rule s1(5))
  qed
  define a2 where "a2 = (if a1 ! nat right > t then a1[nat left := a1 ! nat right, nat right := a1 ! nat left] else a1)"
  have step2: "(if \<not> in_bounds a1 right then None
                else if a1 ! nat right > t then swap a1 left right else Some a1) = Some a2"
    using b1r swap_Some [OF b1l b1r] by (simp add: a2_def)
  have len2: "length a2 = length arr" using len1 by (simp add: a2_def)
  have ms2: "mset a2 = mset arr"
  proof (cases "a1 ! nat right > t")
    case True
    with swap_Some [OF b1l b1r] have "swap a1 left right = Some a2" by (simp add: a2_def)
    from swap_props(2) [OF this] s1(2) show ?thesis by simp
  next
    case False
    with s1(2) show ?thesis by (simp add: a2_def)
  qed
  have nlr: "nat left \<noteq> nat right" using assms by (intro ins) linarith+
  have nl: "nat left < length a1" and nr: "nat right < length a1"
    using b1l b1r by (auto simp: in_bounds_def)
  have a2l: "t \<le> a2 ! nat left" and a2r: "a2 ! nat right \<le> t"
    and a2s: "a2 ! nat left = t \<or> a2 ! nat right = t"
    using a1l nlr nl nr by (auto simp: a2_def nth_list_update)
  have fr2: "a2 ! x = arr ! x" if "int x < left \<or> right < int x" for x :: nat
  proof -
    have "x \<noteq> nat left" "x \<noteq> nat right"
      using assms by (intro out [OF that]; linarith)+
    then have "a2 ! x = a1 ! x" by (simp add: a2_def)
    with fr1 [OF that] show ?thesis by simp
  qed
  have inv2: "hoare_inv a2 t left right left right"
    unfolding hoare_inv_def using assms len2 a2l a2r by auto
  from hoare_loop_spec [OF inv2] assms(2)
  obtain a3 i j where hl: "hoare_loop a2 t left right = Some (a3, i, j)"
    and inv3: "hoare_inv a3 t left right i j" and ji: "j \<le> i"
    and li: "left < i" and jr: "j < right"
    and len3: "length a3 = length a2" and ms3: "mset a3 = mset a2"
    and fr3: "\<And>x::nat. int x < left \<or> right < int x \<Longrightarrow> a3 ! x = a2 ! x"
    and a3l: "a3 ! nat left = a2 ! nat right" and a3r: "a3 ! nat right = a2 ! nat left"
    by blast
  from inv3 have lj: "left \<le> j" and ir: "i \<le> right"
    and low: "\<And>x. left \<le> x \<Longrightarrow> x < i \<Longrightarrow> a3 ! nat x \<le> t"
    and high: "\<And>x. j < x \<Longrightarrow> x \<le> right \<Longrightarrow> t \<le> a3 ! nat x"
    and tj: "a3 ! nat j \<le> t"
    by (auto simp: hoare_inv_def)
  have len3': "length a3 = length arr" using len3 len2 by simp
  have b3: "in_bounds a3 x" if "left \<le> x" "x \<le> right" for x
    using that assms len3' by (auto simp: in_bounds_def)
  have head: "partition_pass arr k left right =
      (if a3 ! nat left = t
       then do { a4 \<leftarrow> swap a3 left j; Some (a4, j) }
       else do { a4 \<leftarrow> swap a3 (j + 1) right; Some (a4, j + 1) })"
    unfolding partition_pass_def using bk sw1 step2 hl
    by (simp add: t_def [symmetric] Let_def)
  show ?thesis
  proof (cases "a3 ! nat left = t")
    case True
    define a4 where "a4 = a3[nat left := a3 ! nat j, nat j := a3 ! nat left]"
    have sw4: "swap a3 left j = Some a4"
      unfolding a4_def using lj jr assms by (intro swap_Some b3) auto
    note s4 = swap_props [OF sw4]
    have res: "partition_pass arr k left right = Some (a4, j)"
      unfolding head using True sw4 by simp
    have p1: "a4 ! nat j = t" using s4(4) True by simp
    have p2: "a4 ! nat x \<le> t" if "left \<le> x" "x < j" for x
    proof (cases "x = left")
      case True
      with s4(3) tj show ?thesis by simp
    next
      case False
      with that assms lj have "nat x \<noteq> nat left" "nat x \<noteq> nat j"
        by (intro ins; linarith)+
      then have "a4 ! nat x = a3 ! nat x" by (rule s4(5))
      with low [of x] that ji show ?thesis by simp
    qed
    have p3: "t \<le> a4 ! nat x" if "j < x" "x \<le> right" for x
    proof -
      from that lj assms have "nat x \<noteq> nat left" "nat x \<noteq> nat j"
        by (intro ins; linarith)+
      then have "a4 ! nat x = a3 ! nat x" by (rule s4(5))
      with high [of x] that show ?thesis by simp
    qed
    have p4: "a4 ! x = arr ! x" if "int x < left \<or> right < int x" for x :: nat
    proof -
      have "x \<noteq> nat left" "x \<noteq> nat j"
        using lj jr assms by (intro out [OF that]; linarith)+
      then have "a4 ! x = a3 ! x" by (rule s4(5))
      with fr3 [OF that] fr2 [OF that] show ?thesis by simp
    qed
    show ?thesis
      unfolding res t_def [symmetric]
      using s4(1,2) len3' ms3 ms2 lj jr p1 p2 p3 p4 by auto
  next
    case False
    with a2s a3l a3r have a3rt: "a3 ! nat right = t" by auto
    define j' where "j' = j + 1"
    define a4 where "a4 = a3[nat j' := a3 ! nat right, nat right := a3 ! nat j']"
    have j'r: "j' \<le> right" and lj': "left < j'" using jr lj by (auto simp: j'_def)
    have sw4: "swap a3 (j + 1) right = Some a4"
      unfolding a4_def j'_def [symmetric] using j'r lj' assms by (intro swap_Some b3) auto
    note s4 = swap_props [OF sw4, folded j'_def]
    have res: "partition_pass arr k left right = Some (a4, j')"
      unfolding head j'_def using False sw4 by simp
    have p1: "a4 ! nat j' = t" using s4(3) a3rt by simp
    have p2: "a4 ! nat x \<le> t" if "left \<le> x" "x < j'" for x
    proof -
      from that j'r lj' assms have "nat x \<noteq> nat j'" "nat x \<noteq> nat right"
        by (intro ins; linarith)+
      then have eq: "a4 ! nat x = a3 ! nat x" by (rule s4(5))
      show ?thesis
      proof (cases "x = j")
        case True
        with eq tj show ?thesis by simp
      next
        case False
        with that have "x < j" by (simp add: j'_def)
        with low [of x] that ji eq show ?thesis by simp
      qed
    qed
    have p3: "t \<le> a4 ! nat x" if "j' < x" "x \<le> right" for x
    proof (cases "x = right")
      case True
      have "t \<le> a3 ! nat j'" using high [of j'] j'r by (simp add: j'_def)
      with s4(4) True show ?thesis by simp
    next
      case False
      with that lj' assms have "nat x \<noteq> nat j'" "nat x \<noteq> nat right"
        by (intro ins; linarith)+
      then have "a4 ! nat x = a3 ! nat x" by (rule s4(5))
      with high [of x] that show ?thesis by (simp add: j'_def)
    qed
    have p4: "a4 ! x = arr ! x" if "int x < left \<or> right < int x" for x :: nat
    proof -
      have "x \<noteq> nat j'" "x \<noteq> nat right"
        using lj' j'r assms by (intro out [OF that]; linarith)+
      then have "a4 ! x = a3 ! x" by (rule s4(5))
      with fr3 [OF that] fr2 [OF that] show ?thesis by simp
    qed
    show ?thesis
      unfolding res t_def [symmetric]
      using s4(1,2) len3' ms3 ms2 lj' j'r p1 p2 p3 p4 by auto
  qed
qed

subsection \<open>quickselect: the sub-range of the Floyd-Rivest step\<close>

text \<open>
  For a range of more than 601 elements the sub-range contains \<open>k\<close>, lies inside
  \<open>[left, right]\<close>, is strictly shorter, and its right end is positive, so the
  defaulting of the recursive call leaves both bounds as they are.
\<close>

lemma floyd_rivest_bounds_spec:
  assumes "0 \<le> left" and "left \<le> k" and "k \<le> right" and "600 < right - left"
  shows "\<exists>nl nr. floyd_rivest_bounds k left right = (nl, nr) \<and>
           left \<le> nl \<and> nl \<le> k \<and> k \<le> nr \<and> nr \<le> right \<and> 0 < nr \<and>
           nr - nl < right - left"
proof -
  define n where "n = real_of_int (right - left + 1)"
  define m where "m = real_of_int (k - left + 1)"
  define z where "z = ln n"
  define u where "u = exp (z / 3)"
  define s where "s = 0.5 * exp (2 * z / 3)"
  define B where "B = 0.5 * sqrt (z * s * (n - s) / n)"
  define sd where "sd = (if m - n / 2 < 0 then B * (- 1) else B)"
  define XL where "XL = real_of_int k - m * s / n + sd"
  define XR where "XR = real_of_int k + (n - m) * s / n + sd"
  have fr: "floyd_rivest_bounds k left right = (max left \<lfloor>XL\<rfloor>, min right \<lfloor>XR\<rfloor>)"
    unfolding floyd_rivest_bounds_def Let_def XL_def XR_def sd_def B_def s_def z_def m_def n_def
    by simp
  have n602: "602 \<le> n" using assms(4) by (simp add: n_def)
  then have npos: "0 < n" by simp
  have m1: "1 \<le> m" and mn: "m \<le> n" using assms by (simp_all add: m_def n_def)
  have upos: "0 < u" by (simp add: u_def)
  have u3: "u ^ 3 = n"
  proof -
    have "u ^ 3 = exp (of_nat 3 * (z / 3))" unfolding u_def by (rule exp_of_nat_mult [symmetric])
    also have "\<dots> = exp z" by simp
    also have "\<dots> = n" using npos by (simp add: z_def)
    finally show ?thesis .
  qed
  have u2: "exp (2 * z / 3) = u ^ 2"
  proof -
    have "u ^ 2 = exp (of_nat 2 * (z / 3))" unfolding u_def by (rule exp_of_nat_mult [symmetric])
    then show ?thesis by simp
  qed
  have u8: "8 \<le> u"
  proof (rule ccontr)
    assume "\<not> 8 \<le> u"
    then have "u < 8" by simp
    with upos have "u ^ 3 < 8 ^ 3" by (intro power_strict_mono) simp_all
    with u3 n602 show False by simp
  qed
  have s_eq: "s = u ^ 2 / 2" by (simp add: s_def u2)
  have uu: "8 * u \<le> u ^ 2" using u8 upos by (simp add: power2_eq_square)
  have uuu: "8 * u ^ 2 \<le> u ^ 3" using u8 by (simp add: power3_eq_cube power2_eq_square)
  have u64: "64 \<le> u ^ 2" using uu u8 by linarith
  have s32: "32 \<le> s" using u64 by (simp add: s_eq)
  have spos: "0 \<le> s" using s32 by simp
  have sn: "s \<le> n" using uuu u64 u3 by (simp add: s_eq)
  have s2n: "s + 2 \<le> n" using uuu u64 u3 by (simp add: s_eq)
  have zpos: "0 \<le> z" using n602 by (simp add: z_def)
  have zs: "z \<le> s"
  proof -
    have "ln u = z / 3" by (simp add: u_def)
    moreover have "ln u \<le> u - 1" using upos by (rule ln_le_minus_one)
    ultimately have "z \<le> 3 * (u - 1)" by simp
    also have "\<dots> \<le> 4 * u" using upos by simp
    also have "\<dots> \<le> u ^ 2 / 2" using uu by simp
    finally show ?thesis by (simp add: s_eq)
  qed
  define Q where "Q = z * s * (n - s) / n"
  have Q0: "0 \<le> Q"
  proof -
    have "0 \<le> z * s * (n - s)" using zpos spos sn by (intro mult_nonneg_nonneg) simp_all
    with npos show ?thesis unfolding Q_def by (simp add: zero_le_divide_iff)
  qed
  have Qs: "Q \<le> s * s"
  proof -
    have "(n - s) / n \<le> 1" using spos npos by simp
    moreover have "0 \<le> z * s" using zpos spos by simp
    ultimately have "z * s * ((n - s) / n) \<le> z * s * 1" by (intro mult_left_mono)
    then have "Q \<le> z * s" by (simp add: Q_def)
    also have "\<dots> \<le> s * s" using zs spos by (intro mult_right_mono)
    finally show ?thesis .
  qed
  have B0: "0 \<le> B" using Q0 by (simp add: B_def Q_def)
  have Bs: "B \<le> s / 2"
  proof -
    have "sqrt Q \<le> sqrt (s * s)" using Qs by (rule real_sqrt_le_mono)
    also have "\<dots> = s" using spos by simp
    finally show ?thesis by (simp add: B_def Q_def)
  qed
  have diff: "XR - XL = s"
    unfolding XR_def XL_def using npos by (simp add: field_simps)
  have half1: "s / 2 \<le> m * s / n" if "n / 2 \<le> m"
  proof -
    from that spos have "n / 2 * s \<le> m * s" by (intro mult_right_mono)
    then have "n / 2 * s / n \<le> m * s / n" using npos by (intro divide_right_mono) simp_all
    then show ?thesis using npos by simp
  qed
  have half2: "s / 2 \<le> (n - m) * s / n" if "m \<le> n / 2"
  proof -
    from that have "n / 2 \<le> n - m" by simp
    with spos have "n / 2 * s \<le> (n - m) * s" by (intro mult_right_mono)
    then have "n / 2 * s / n \<le> (n - m) * s / n" using npos by (intro divide_right_mono) simp_all
    then show ?thesis using npos by simp
  qed
  have ms0: "0 \<le> m * s / n" using m1 spos npos by simp
  have nms0: "0 \<le> (n - m) * s / n" using mn spos npos by simp
  have XL_lt: "XL < real_of_int k + 1"
  proof (cases "m - n / 2 < 0")
    case True
    then have sd: "sd = - B" by (simp add: sd_def)
    show ?thesis unfolding XL_def sd using B0 ms0 by linarith
  next
    case False
    then have sd: "sd = B" and "n / 2 \<le> m" by (simp_all add: sd_def)
    from half1 [OF this(2)] show ?thesis unfolding XL_def sd using Bs by linarith
  qed
  have XR_ge: "real_of_int k \<le> XR"
  proof (cases "m - n / 2 < 0")
    case True
    then have sd: "sd = - B" and "m \<le> n / 2" by (simp_all add: sd_def)
    from half2 [OF this(2)] show ?thesis unfolding XR_def sd using Bs by linarith
  next
    case False
    then have sd: "sd = B" by (simp add: sd_def)
    show ?thesis unfolding XR_def sd using B0 nms0 by linarith
  qed
  have XR_one: "1 \<le> XR"
  proof (cases "k = 0")
    case True
    with assms have "left = 0" by simp
    with True have m: "m = 1" by (simp add: m_def)
    with n602 have sd: "sd = - B" by (simp add: sd_def)
    have e: "(n - 1) * s / n = s - s / n" using npos by (simp add: field_simps)
    have "s / n \<le> 1" using sn npos by simp
    then show ?thesis unfolding XR_def sd m e True using Bs s32 by simp
  next
    case False
    with assms have "1 \<le> k" by simp
    then have "1 \<le> real_of_int k" by simp
    with XR_ge show ?thesis by simp
  qed
  have fl_le: "\<lfloor>XL\<rfloor> \<le> k" using XL_lt by (simp add: floor_le_iff)
  have fr_ge: "k \<le> \<lfloor>XR\<rfloor>" using XR_ge by (simp add: le_floor_iff)
  have fr_pos: "0 < \<lfloor>XR\<rfloor>" using XR_one by (simp add: less_floor_iff)
  have width: "\<lfloor>XR\<rfloor> - \<lfloor>XL\<rfloor> < right - left"
  proof -
    have a: "real_of_int \<lfloor>XR\<rfloor> \<le> XR" by (rule of_int_floor_le)
    have b: "XL - 1 < real_of_int \<lfloor>XL\<rfloor>" by linarith
    from a b diff have "real_of_int \<lfloor>XR\<rfloor> - real_of_int \<lfloor>XL\<rfloor> < s + 1" by linarith
    then have "real_of_int (\<lfloor>XR\<rfloor> - \<lfloor>XL\<rfloor>) < s + 1" by simp
    also have "\<dots> \<le> n - 1" using s2n by simp
    also have "\<dots> = real_of_int (right - left)" by (simp add: n_def)
    finally show ?thesis by (simp only: of_int_less_iff)
  qed
  show ?thesis
    unfolding fr using assms fl_le fr_ge fr_pos width by auto
qed

subsection \<open>quickselect: the selection loop\<close>

lemma range_of_mset:
  fixes a a' :: "real list"
  assumes "mset a' = mset a" and "\<And>x::nat. int x < l \<or> r < int x \<Longrightarrow> a' ! x = a ! x"
    and "0 \<le> l" and "l \<le> r + 1" and "r < int (length a)"
  shows "mset (range_of a' l r) = mset (range_of a l r)"
proof -
  define L where "L = nat l"
  define W where "W = nat (r - l + 1)"
  from assms(1) have len: "length a' = length a" by (rule mset_eq_length)
  have LW: "L + W \<le> length a" using assms(3-5) by (simp add: L_def W_def)
  have split: "xs = take L xs @ take W (drop L xs) @ drop (L + W) xs" for xs :: "real list"
    by (metis append_take_drop_id drop_drop add.commute)
  have t: "take L a' = take L a"
  proof (rule nth_equalityI)
    show "length (take L a') = length (take L a)" by (simp add: len)
    fix i assume "i < length (take L a')"
    then have "i < L" by simp
    then have "int i < l" using assms(3) by (simp add: L_def)
    then show "take L a' ! i = take L a ! i" using \<open>i < L\<close> assms(2) by simp
  qed
  have d: "drop (L + W) a' = drop (L + W) a"
  proof (rule nth_equalityI)
    show "length (drop (L + W) a') = length (drop (L + W) a)" by (simp add: len)
    fix i assume i: "i < length (drop (L + W) a')"
    have "r < int (L + W + i)" using assms(3,4) by (simp add: L_def W_def)
    then have "a' ! (L + W + i) = a ! (L + W + i)" using assms(2) by simp
    then show "drop (L + W) a' ! i = drop (L + W) a ! i" using i LW len by simp
  qed
  have "mset a' = mset (take L a') + mset (take W (drop L a')) + mset (drop (L + W) a')"
    by (subst split [of a']) simp
  moreover have "mset a = mset (take L a) + mset (take W (drop L a)) + mset (drop (L + W) a)"
    by (subst split [of a]) simp
  ultimately have "mset (take W (drop L a')) = mset (take W (drop L a))"
    using assms(1) t d by simp
  then show ?thesis by (simp add: range_of_def L_def W_def)
qed

lemma range_of_nth:
  assumes "0 \<le> l" and "l \<le> x" and "x \<le> r" and "r < int (length a)"
  shows "range_of a l r ! nat (x - l) = a ! nat x" and "nat (x - l) < length (range_of a l r)"
proof -
  have "nat (x - l) < nat (r - l + 1)" using assms by simp
  moreover have "nat l + nat (x - l) = nat x" using assms by simp
  moreover have "nat l + nat (x - l) < length a" using assms by simp
  ultimately show "range_of a l r ! nat (x - l) = a ! nat x"
    by (simp add: range_of_def)
  show "nat (x - l) < length (range_of a l r)" using assms by (simp add: range_of_def)
qed

lemma range_of_length:
  assumes "0 \<le> l" and "l \<le> r + 1" and "r < int (length a)"
  shows "length (range_of a l r) = nat (r - l + 1)"
  using assms by (simp add: range_of_def)

lemma perm_frame_range:
  fixes a a' :: "real list"
  assumes "mset a' = mset a" and "\<And>x::nat. int x < l \<or> r < int x \<Longrightarrow> a' ! x = a ! x"
    and "0 \<le> l" and "r < int (length a)" and "l \<le> x" and "x \<le> r"
  shows "\<exists>y. l \<le> y \<and> y \<le> r \<and> a' ! nat x = a ! nat y"
proof -
  from assms(1) have len: "length a' = length a" by (rule mset_eq_length)
  have lr: "l \<le> r + 1" using assms(5,6) by simp
  have ms: "mset (range_of a' l r) = mset (range_of a l r)"
    using assms(1-4) lr by (intro range_of_mset)
  have "a' ! nat x = range_of a' l r ! nat (x - l)"
    using range_of_nth(1) [of l x r a'] assms len by simp
  moreover have "nat (x - l) < length (range_of a' l r)"
    using range_of_nth(2) [of l x r a'] assms len by simp
  ultimately have "a' ! nat x \<in> set (range_of a' l r)" by (metis nth_mem)
  then have "a' ! nat x \<in> set (range_of a l r)" using ms by (metis mset_eq_setD)
  then obtain i where i: "i < length (range_of a l r)" "range_of a l r ! i = a' ! nat x"
    by (metis in_set_conv_nth)
  define y where "y = l + int i"
  from i(1) have il: "i < nat (r - l + 1)" using range_of_length [OF assms(3) lr assms(4)] by simp
  then have y: "l \<le> y" "y \<le> r" by (simp_all add: y_def)
  have "nat (y - l) = i" by (simp add: y_def)
  with range_of_nth(1) [of l y r a] y assms(3,4) i(2) have "a ! nat y = a' ! nat x" by simp
  with y show ?thesis by auto
qed

lemma pivot_sorted_nth:
  fixes xs :: "real list"
  assumes "p < length xs" and "\<And>i. i < p \<Longrightarrow> xs ! i \<le> xs ! p"
    and "\<And>i. p < i \<Longrightarrow> i < length xs \<Longrightarrow> xs ! p \<le> xs ! i"
  shows "sort xs ! p = xs ! p"
proof -
  define A where "A = take p xs"
  define B where "B = drop (Suc p) xs"
  have xs: "xs = A @ xs ! p # B" unfolding A_def B_def using assms(1) by (rule id_take_nth_drop)
  have lenA: "length A = p" using assms(1) by (simp add: A_def)
  have A: "x \<le> xs ! p" if "x \<in> set A" for x
  proof -
    from that obtain i where "i < length A" "A ! i = x" by (metis in_set_conv_nth)
    with assms(2) [of i] lenA show ?thesis by (simp add: A_def)
  qed
  have B: "xs ! p \<le> x" if "x \<in> set B" for x
  proof -
    from that obtain i where i: "i < length B" "B ! i = x" by (metis in_set_conv_nth)
    then have "Suc p + i < length xs" by (simp add: B_def)
    with assms(3) [of "Suc p + i"] i show ?thesis by (simp add: B_def)
  qed
  define ys where "ys = sort A @ xs ! p # sort B"
  have "sorted ys"
    unfolding ys_def using A B by (fastforce simp: sorted_append)
  moreover have "mset ys = mset xs"
  proof -
    have "mset xs = mset (A @ xs ! p # B)" using xs by simp
    then show ?thesis by (simp add: ys_def)
  qed
  ultimately have "sort xs = ys" by (rule properties_for_sort [rotated])
  moreover have "ys ! p = xs ! p" unfolding ys_def using lenA by (simp add: nth_append)
  ultimately show ?thesis by simp
qed

lemma quickselect_while_spec:
  assumes "0 \<le> left" and "right < int (length arr)" and "left \<le> k" and "k \<le> right"
  shows "\<exists>arr'. quickselect_while arr k left right = Some arr' \<and> select_post arr arr' k left right"
  using assms
proof (induction "nat (right - left)" arbitrary: arr left right rule: less_induct)
  case less
  note pre = less.prems
  show ?case
  proof (cases "right > left")
    case False
    then have "quickselect_while arr k left right = Some arr"
      by (subst quickselect_while.simps) simp
    moreover from False pre have "left = k" "right = k" by simp_all
    ultimately show ?thesis by (auto simp: select_post_def)
  next
    case True
    \<comment> \<open>the optional recursive call on the sub-range\<close>
    have "\<exists>arr1. (if right - left > 600
             then (case floyd_rivest_bounds k left right of (newLeft, newRight) \<Rightarrow>
                     quickselect_while arr k (js_or newLeft 0)
                       (js_or newRight (int (length arr) - 1)))
             else Some arr) = Some arr1 \<and>
          length arr1 = length arr \<and> mset arr1 = mset arr \<and>
          (\<forall>x::nat. int x < left \<or> right < int x \<longrightarrow> arr1 ! x = arr ! x)"
    proof (cases "right - left > 600")
      case False
      then show ?thesis by simp
    next
      case big: True
      from floyd_rivest_bounds_spec [OF pre(1,3,4)] big
      obtain nl nr where b: "floyd_rivest_bounds k left right = (nl, nr)"
        and nl: "left \<le> nl" "nl \<le> k" and nr: "k \<le> nr" "nr \<le> right" "0 < nr"
        and w: "nr - nl < right - left" by auto
      have jo: "js_or nl 0 = nl" "js_or nr (int (length arr) - 1) = nr"
        using nr(3) by (auto simp: js_or_def)
      have "nat (nr - nl) < nat (right - left)" using w True by simp
      from less.hyps [OF this, of arr] nl nr pre
      obtain arr1 where r: "quickselect_while arr k nl nr = Some arr1"
        and p: "select_post arr arr1 k nl nr" by auto
      from p nl nr have "length arr1 = length arr \<and> mset arr1 = mset arr \<and>
          (\<forall>x::nat. int x < left \<or> right < int x \<longrightarrow> arr1 ! x = arr ! x)"
        by (auto simp: select_post_def)
      with big b jo r show ?thesis by simp
    qed
    then obtain arr1 where st1: "(if right - left > 600
             then (case floyd_rivest_bounds k left right of (newLeft, newRight) \<Rightarrow>
                     quickselect_while arr k (js_or newLeft 0)
                       (js_or newRight (int (length arr) - 1)))
             else Some arr) = Some arr1"
      and len1: "length arr1 = length arr" and ms1: "mset arr1 = mset arr"
      and fr1: "\<And>x::nat. int x < left \<or> right < int x \<Longrightarrow> arr1 ! x = arr ! x"
      by blast
    \<comment> \<open>the partition pass\<close>
    from pre len1 have rlen1: "right < int (length arr1)" by simp
    from partition_pass_spec [OF pre(1) True rlen1 pre(3,4)]
    obtain arr2 j where pp: "partition_pass arr1 k left right = Some (arr2, j)"
      and len2: "length arr2 = length arr1" and ms2: "mset arr2 = mset arr1"
      and lj: "left \<le> j" and jr: "j \<le> right"
      and piv: "arr2 ! nat j = arr1 ! nat k"
      and low: "\<And>x. left \<le> x \<Longrightarrow> x < j \<Longrightarrow> arr2 ! nat x \<le> arr1 ! nat k"
      and high: "\<And>x. j < x \<Longrightarrow> x \<le> right \<Longrightarrow> arr1 ! nat k \<le> arr2 ! nat x"
      and fr2: "\<And>x::nat. int x < left \<or> right < int x \<Longrightarrow> arr2 ! x = arr1 ! x"
      by blast
    define t where "t = arr1 ! nat k"
    define left' where "left' = (if j \<le> k then j + 1 else left)"
    define right' where "right' = (if k \<le> j then j - 1 else right)"
    have unfold: "quickselect_while arr k left right = quickselect_while arr2 k left' right'"
      unfolding left'_def right'_def
      by (subst quickselect_while.simps) (simp add: True st1 pp)
    have rlen2: "right < int (length arr2)" using rlen1 len2 by simp
    consider "j < k" | "j = k" | "k < j" by linarith
    then show ?thesis
    proof cases
      case 1
      then have lr: "left' = j + 1" "right' = right" by (simp_all add: left'_def right'_def)
      have "nat (right - (j + 1)) < nat (right - left)" using lj jr 1 pre by simp
      from less.hyps [OF this, of arr2] lj 1 pre rlen2
      obtain arr3 where r: "quickselect_while arr2 k (j + 1) right = Some arr3"
        and p: "select_post arr2 arr3 k (j + 1) right" by auto
      from p have len3: "length arr3 = length arr2" and ms3: "mset arr3 = mset arr2"
        and fr3: "\<And>x::nat. int x < j + 1 \<or> right < int x \<Longrightarrow> arr3 ! x = arr2 ! x"
        and lo3: "\<And>x. j + 1 \<le> x \<Longrightarrow> x \<le> k \<Longrightarrow> arr3 ! nat x \<le> arr3 ! nat k"
        and hi3: "\<And>x. k \<le> x \<Longrightarrow> x \<le> right \<Longrightarrow> arr3 ! nat k \<le> arr3 ! nat x"
        by (auto simp: select_post_def)
      have "\<exists>y. j + 1 \<le> y \<and> y \<le> right \<and> arr3 ! nat k = arr2 ! nat y"
        using lj rlen2 1 pre
        by (intro perm_frame_range [where a' = arr3 and a = arr2 and l = "j + 1" and r = right, OF ms3 fr3])
          auto
      then obtain y where y: "j + 1 \<le> y" "y \<le> right" "arr3 ! nat k = arr2 ! nat y" by auto
      with high [of y] have tk: "t \<le> arr3 ! nat k" by (simp add: t_def)
      have below: "arr3 ! nat x \<le> arr3 ! nat k" if "left \<le> x" "x \<le> k" for x
      proof (cases "x \<le> j")
        case True
        with that pre have "arr3 ! nat x = arr2 ! nat x" by (intro fr3) auto
        moreover have "arr2 ! nat x \<le> t"
          using low [of x] piv that True by (cases "x = j") (auto simp: t_def)
        ultimately show ?thesis using tk by simp
      next
        case False
        with that lo3 [of x] show ?thesis by simp
      qed
      have "select_post arr arr3 k left right"
        unfolding select_post_def
        using len3 len2 len1 ms3 ms2 ms1 fr3 fr2 fr1 lj below hi3 by auto
      with unfold lr r show ?thesis by simp
    next
      case 2
      then have lr: "left' = k + 1" "right' = k - 1" by (simp_all add: left'_def right'_def)
      have r: "quickselect_while arr2 k (k + 1) (k - 1) = Some arr2"
        by (subst quickselect_while.simps) simp
      have "select_post arr arr2 k left right"
        unfolding select_post_def
        using len2 len1 ms2 ms1 fr2 fr1 low high piv 2
        by (auto simp: order_le_less)
      with unfold lr r show ?thesis by simp
    next
      case 3
      then have lr: "left' = left" "right' = j - 1" by (simp_all add: left'_def right'_def)
      have "nat (j - 1 - left) < nat (right - left)" using lj jr 3 pre by simp
      from less.hyps [OF this, of arr2] jr 3 pre rlen2
      obtain arr3 where r: "quickselect_while arr2 k left (j - 1) = Some arr3"
        and p: "select_post arr2 arr3 k left (j - 1)" by auto
      from p have len3: "length arr3 = length arr2" and ms3: "mset arr3 = mset arr2"
        and fr3: "\<And>x::nat. int x < left \<or> j - 1 < int x \<Longrightarrow> arr3 ! x = arr2 ! x"
        and lo3: "\<And>x. left \<le> x \<Longrightarrow> x \<le> k \<Longrightarrow> arr3 ! nat x \<le> arr3 ! nat k"
        and hi3: "\<And>x. k \<le> x \<Longrightarrow> x \<le> j - 1 \<Longrightarrow> arr3 ! nat k \<le> arr3 ! nat x"
        by (auto simp: select_post_def)
      have "\<exists>y. left \<le> y \<and> y \<le> j - 1 \<and> arr3 ! nat k = arr2 ! nat y"
        using jr rlen2 3 pre
        by (intro perm_frame_range [where a' = arr3 and a = arr2 and l = left and r = "j - 1", OF ms3 fr3])
          auto
      then obtain y where y: "left \<le> y" "y \<le> j - 1" "arr3 ! nat k = arr2 ! nat y" by auto
      with low [of y] have tk: "arr3 ! nat k \<le> t" by (simp add: t_def)
      have above: "arr3 ! nat k \<le> arr3 ! nat x" if "k \<le> x" "x \<le> right" for x
      proof (cases "j \<le> x")
        case True
        with that pre 3 have "arr3 ! nat x = arr2 ! nat x" by (intro fr3) auto
        moreover have "t \<le> arr2 ! nat x"
          using high [of x] piv that True by (cases "x = j") (auto simp: t_def)
        ultimately show ?thesis using tk by simp
      next
        case False
        with that hi3 [of x] show ?thesis by simp
      qed
      have "select_post arr arr3 k left right"
        unfolding select_post_def
        using len3 len2 len1 ms3 ms2 ms1 fr3 fr2 fr1 jr lo3 above by auto
      with unfold lr r show ?thesis by simp
    qed
  qed
qed

lemma quickselect_spec:
  assumes "0 \<le> left" and "left \<le> k" and "k \<le> right" and "right < int (length arr)"
    and "right = 0 \<longrightarrow> length arr = 1"
  shows "\<exists>arr'. quickselect arr k left right = Some arr' \<and> select_post arr arr' k left right"
proof -
  have "js_or left 0 = left" by (simp add: js_or_def)
  moreover have "js_or right (int (length arr) - 1) = right"
    using assms(5) by (auto simp: js_or_def)
  ultimately have "quickselect arr k left right = quickselect_while arr k left right"
    by (simp add: quickselect_def)
  with quickselect_while_spec [OF assms(1,4,2,3)] show ?thesis by simp
qed

lemma select_post_nth_smallest:
  assumes "select_post arr arr' k left right"
    and "0 \<le> left" and "left \<le> k" and "k \<le> right" and "right < int (length arr)"
  shows "arr' ! nat k = sort (range_of arr left right) ! nat (k - left)"
proof -
  from assms(1) have len: "length arr' = length arr" and ms: "mset arr' = mset arr"
    and fr: "\<And>x::nat. int x < left \<or> right < int x \<Longrightarrow> arr' ! x = arr ! x"
    and lo: "\<And>x. left \<le> x \<Longrightarrow> x \<le> k \<Longrightarrow> arr' ! nat x \<le> arr' ! nat k"
    and hi: "\<And>x. k \<le> x \<Longrightarrow> x \<le> right \<Longrightarrow> arr' ! nat k \<le> arr' ! nat x"
    by (auto simp: select_post_def)
  define xs where "xs = range_of arr' left right"
  define p where "p = nat (k - left)"
  have lr: "left \<le> right + 1" using assms by simp
  have rlen: "right < int (length arr')" using assms len by simp
  have lxs: "length xs = nat (right - left + 1)"
    unfolding xs_def using assms(2) lr rlen by (rule range_of_length)
  have nth: "xs ! i = arr' ! nat (left + int i)" if "i < length xs" for i
  proof -
    from that lxs have "left + int i \<le> right" by simp
    from range_of_nth(1) [OF assms(2) _ this rlen] show ?thesis by (simp add: xs_def)
  qed
  have pl: "p < length xs" using assms lxs by (simp add: p_def)
  have pk: "left + int p = k" using assms by (simp add: p_def)
  have "sort xs ! p = xs ! p"
  proof (rule pivot_sorted_nth [OF pl])
    fix i assume i: "i < p"
    with pl have "xs ! i = arr' ! nat (left + int i)" by (intro nth) simp
    moreover have "arr' ! nat (left + int i) \<le> arr' ! nat k" using i pk by (intro lo) simp_all
    ultimately show "xs ! i \<le> xs ! p" using nth [OF pl] pk by simp
  next
    fix i assume i: "p < i" "i < length xs"
    then have "xs ! i = arr' ! nat (left + int i)" by (intro nth)
    moreover have "arr' ! nat k \<le> arr' ! nat (left + int i)"
      using i pk lxs by (intro hi) simp_all
    ultimately show "xs ! p \<le> xs ! i" using nth [OF pl] pk by simp
  qed
  moreover have "xs ! p = arr' ! nat k" using nth [OF pl] pk by simp
  moreover have "sort (range_of arr left right) = sort xs"
  proof (rule properties_for_sort)
    have "mset xs = mset (range_of arr left right)"
      unfolding xs_def using ms fr assms(2) lr assms(5) by (intro range_of_mset)
    then show "mset (sort xs) = mset (range_of arr left right)" by simp
    show "sorted (sort xs)" by simp
  qed
  ultimately show ?thesis by (simp add: p_def)
qed

text \<open>
  Total correctness away from a right bound of \<open>0\<close>. For bounds
  \<open>0 \<le> left \<le> k \<le> right < arr.length\<close> with \<open>right \<noteq> 0\<close> (or an array of one element),
  \<open>quickselect arr k left right\<close> terminates and rearranges \<open>arr\<close> into a permutation
  of its contents in which the element at \<open>k\<close> is the \<open>(k - left + 1)\<close>-th smallest of
  the original range \<open>[left, right]\<close>, every element of \<open>[left, k]\<close> is at most and
  every element of \<open>[k, right]\<close> at least the element at \<open>k\<close>, and the elements outside
  \<open>[left, right]\<close> are unchanged.
\<close>

theorem quickselect_selects:
  assumes "0 \<le> left" and "left \<le> k" and "k \<le> right" and "right < int (length arr)"
    and "right = 0 \<longrightarrow> length arr = 1"
  shows "\<exists>arr'. quickselect arr k left right = Some arr' \<and> mset arr' = mset arr \<and>
           arr' ! nat k = sort (range_of arr left right) ! nat (k - left) \<and>
           (\<forall>x. left \<le> x \<and> x \<le> k \<longrightarrow> arr' ! nat x \<le> arr' ! nat k) \<and>
           (\<forall>x. k \<le> x \<and> x \<le> right \<longrightarrow> arr' ! nat k \<le> arr' ! nat x) \<and>
           (\<forall>x::nat. int x < left \<or> right < int x \<longrightarrow> arr' ! x = arr ! x)"
proof -
  from quickselect_spec [OF assms]
  obtain arr' where r: "quickselect arr k left right = Some arr'"
    and p: "select_post arr arr' k left right" by blast
  from select_post_nth_smallest [OF p assms(1-4)] p r show ?thesis
    unfolding select_post_def by blast
qed

theorem quickselect_selects_witness:
  "(0 :: int) \<le> 1 \<and> (1 :: int) \<le> 3 \<and> (3 :: int) < int (length [9, 4, 1, 3, 2 :: real]) \<and>
   (\<exists>arr'. quickselect [9, 4, 1, 3, 2] 1 1 3 = Some arr' \<and> arr' ! 1 = 1 \<and> arr' ! 0 = 9 \<and>
            arr' ! 4 = 2)"
proof -
  have s: "sort (range_of [9, 4, 1, 3, 2] 1 3) = [1, 3, 4]"
    by (simp add: range_of_def)
  from quickselect_selects [of 1 1 3 "[9, 4, 1, 3, 2]"]
  obtain arr' where a: "quickselect [9, 4, 1, 3, 2] 1 1 3 = Some arr'"
    and b: "arr' ! nat 1 = sort (range_of [9, 4, 1, 3, 2] 1 3) ! nat (1 - 1)"
    and c: "\<forall>x::nat. int x < 1 \<or> 3 < int x \<longrightarrow> arr' ! x = [9, 4, 1, 3, 2] ! x"
    by auto
  from c have "arr' ! 0 = 9" and "arr' ! 4 = 2" by simp_all
  moreover from b s have "arr' ! 1 = 1" by simp
  ultimately show ?thesis using a by simp
qed

subsection \<open>quickselect: the defaulted right bound\<close>

text \<open>
  Claim C6 (the code departs from it). \<^verbatim>\<open>right = right || arr.length - 1\<close> takes a right
  bound of \<open>0\<close> for an absent one and replaces it by the last index. On \<open>arr = [2, 1]\<close>
  with \<open>k = left = right = 0\<close> the bounds satisfy \<open>0 \<le> left \<le> k \<le> right < arr.length\<close>
  and the call leaves \<open>[1, 2]\<close>: the element at \<open>k\<close> is \<open>1\<close>, where the smallest value
  of the range \<open>[0, 0]\<close> is \<open>2\<close>, and the element at index \<open>1\<close>, outside the range, has
  changed. The documentation of \<^verbatim>\<open>quickselect\<close> promises the \<open>(k - left + 1)\<close>-th
  smallest value of \<open>[left, right]\<close> at \<open>k\<close>.
\<close>

theorem quickselect_right_zero_breaks_contract:
  "(0 :: int) \<le> 0 \<and> (0 :: int) < int (length [2, 1 :: real]) \<and>
   quickselect [2, 1] 0 0 0 = Some [1, 2] \<and>
   sort (range_of [2, 1] 0 0) ! nat (0 - 0) = 2 \<and>
   [1, 2 :: real] ! nat 0 = 1 \<and>
   [1, 2 :: real] ! 1 \<noteq> [2, 1] ! 1"
  by (simp add: select_eval range_of_def)

subsection \<open>The binning loop\<close>






subsection \<open>The entry point\<close>

lemma hd_filter_eq: "k \<in> set xs \<Longrightarrow> hd (filter (\<lambda>p. p = k) xs) = k"
  by (induction xs) auto

lemma set_uniq: "set (uniq xs) = set xs"
  by (simp add: uniq_def)

lemma length_uniq: "length (uniq xs) \<le> length xs"
  unfolding uniq_def by (metis length_remdups_leq length_rev)

lemma sites_of_point_bins:
  "map (\<lambda>d. (bin_x d, bin_y d)) (map (point_bin pts) (uniq pts)) = uniq pts"
proof -
  have "\<And>k. k \<in> set (uniq pts) \<Longrightarrow> (bin_x (point_bin pts k), bin_y (point_bin pts k)) = k"
    by (simp add: point_bin_def Let_def set_uniq hd_filter_eq)
  then show ?thesis by (simp add: map_idI)
qed

lemma binning_of_few:
  assumes "length pts < 3" and "minBins opts = None"
  shows "binning_of hexbin opts pts =
     Some \<lparr>bins = map (point_bin pts) (uniq pts), binSize = None, binRadius = Finite 0\<rparr>"
proof -
  from assms(2) have "minNumOfBins opts = 50" by (simp add: minNumOfBins_def truthy_def)
  moreover from assms(1) length_uniq [of pts] have "real (length (uniq pts)) < 50" by simp
  ultimately show ?thesis by (simp add: binning_of_def Let_def)
qed

text \<open>
  Claim C3, as amended. \<^verbatim>\<open>scagScorer\<close> has no point-count check and no
  InsufficientPoints failure. For an input with fewer than 3 points and the default
  \<open>minBins\<close>, provided the normalisation itself does not throw, it stores
  \<open>normalizedPoints\<close>, one bin of radius 0 per distinct point and the distinct points
  as \<open>binnedSites\<close> on the host object (with \<open>isBinned\<close>: the normalised points as
  \<open>binnedSites\<close>) and goes on to the triangulation with these sites.
\<close>

theorem scagScorer_front_few_points:
  assumes "length inputPoints < 3"
    and "isNormalized opts \<and> np = inputPoints \<or>
         \<not> isNormalized opts \<and> normalizer inputPoints = Inr np \<and> length np = length inputPoints"
    and "minBins opts = None"
  shows "scagScorer_front normalizer hexbin this inputPoints opts =
    Some (if isBinned opts
          then (this\<lparr>out_normalizedPoints := Some np, out_binnedSites := Some np\<rparr>, Inr np)
          else (this\<lparr>out_normalizedPoints := Some np,
                     out_bins := Some (map (point_bin np) (uniq np)),
                     out_binSize := Some None,
                     out_binRadius := Some (Finite 0),
                     out_binnedSites := Some (uniq np)\<rparr>, Inr (uniq np)))"
proof -
  from assms(1,2) have len: "length np < 3" by auto
  from assms(2)
  have norm: "(if \<not> isNormalized opts then normalizer inputPoints else Inr inputPoints) = Inr np"
    by auto
  show ?thesis
    unfolding scagScorer_front_def Let_def norm
    by (simp add: binning_of_few [OF len assms(3)] sites_of_point_bins [unfolded map_map])
qed

theorem scagScorer_front_few_points_witness:
  "length [(0, 0), (1, 1) :: point] < 3 \<and>
   scagScorer_front (\<lambda>pts. Inr pts) (\<lambda>r ps. []) host0 [(0, 0), (1, 1)]
       (default_options\<lparr>isNormalized := True\<rparr>) =
     Some (\<lparr>out_normalizedPoints = Some [(0, 0), (1, 1)],
            out_bins = Some [\<lparr>members = [(0, 0)], bin_x = 0, bin_y = 0, bin_radius = Finite 0\<rparr>,
                             \<lparr>members = [(1, 1)], bin_x = 1, bin_y = 1, bin_radius = Finite 0\<rparr>],
            out_binSize = Some None, out_binRadius = Some (Finite 0),
            out_binnedSites = Some [(0, 0), (1, 1)]\<rparr>, Inr [(0, 0), (1, 1)])"
  using scagScorer_front_few_points [of "[(0, 0), (1, 1)]" "default_options\<lparr>isNormalized := True\<rparr>"
      "[(0, 0), (1, 1)]" "\<lambda>pts. Inr pts" "\<lambda>r ps. []" host0]
  by (simp add: default_options_def host0_def uniq_def point_bin_def)

text \<open>
  The claim fails on the empty input: with \<open>isNormalized\<close> and \<open>isBinned\<close> set,
  \<^verbatim>\<open>scagScorer\<close> does not fail at all before the triangulation; it stores the empty
  list as \<open>normalizedPoints\<close> and as \<open>binnedSites\<close> on the host object.
\<close>

theorem scagScorer_no_insufficient_points_counterexample:
  "length ([] :: point list) < 3 \<and>
   scagScorer_front (\<lambda>pts. Inr pts) (\<lambda>r ps. []) host0 []
       (default_options\<lparr>isNormalized := True, isBinned := True\<rparr>) =
     Some (host0\<lparr>out_normalizedPoints := Some [], out_binnedSites := Some []\<rparr>, Inr [])"
  by (simp add: scagScorer_front_def default_options_def Let_def)

subsection \<open>createGraph and mst\<close>

lemma sqrt_squares: "sqrt 9 = 3" "sqrt 16 = 4" "sqrt 25 = 5"
  using real_sqrt_abs [of 3] real_sqrt_abs [of 4] real_sqrt_abs [of 5] by simp_all

lemma dist_345:
  "distance (0, 0) (3, 0) = 3" "distance (3, 0) (0, 4) = 5" "distance (0, 4) (0, 0) = 4"
  "distance (3, 0) (3, 4) = 4" "distance (3, 4) (0, 0) = 5" "distance (0, 0) (3, 4) = 5"
  "distance (3, 4) (0, 4) = 3"
  by (simp_all add: distance_def js_round_def sqrt_squares)

lemma createGraph_triangle:
  "createGraph [((0, 0), (3, 0), (0, 4))] =
   \<lparr>nodes = [\<lparr>node_id = (0, 0)\<rparr>, \<lparr>node_id = (3, 0)\<rparr>, \<lparr>node_id = (0, 4)\<rparr>],
    links = [\<lparr>source = (0, 0), target = (3, 0), weight = 3\<rparr>,
             \<lparr>source = (3, 0), target = (0, 4), weight = 5\<rparr>,
             \<lparr>source = (0, 4), target = (0, 0), weight = 4\<rparr>]\<rparr>"
  by (simp add: createGraph_def add_nodes_def add_links_def tri_at_def idExists_def linkExists_def
      makeNode_def makeLink_def equalPoints_def equalLinks_def dist_345 Let_def)

text \<open>
  In strict code \<^verbatim>\<open>DisjointSet()\<close> throws at once; in sloppy code \<^verbatim>\<open>forest\<close> is
  \<^verbatim>\<open>undefined\<close> and the first \<^verbatim>\<open>forest.makeSet\<close> throws.
\<close>

lemma mst_throws: "nodes g \<noteq> [] \<Longrightarrow> mst strict g = Some (Inl TypeError)"
  by (cases "nodes g") (auto simp: mst_def plain_call_def makeSet_def Let_def)

lemma mst_strict_throws: "mst True g = Some (Inl TypeError)"
  by (simp add: mst_def plain_call_def)

text \<open>
  Claim C1 (the code departs from it). The graph of the single triangle
  \<open>(0,0), (3,0), (0,4)\<close> is connected, with three nodes and the links of weight 3, 5
  and 4. \<open>mst\<close> returns no spanning tree for it: the call ends in a TypeError, in
  strict and in sloppy mode, because the forest is made by a plain call of the
  constructor function.
\<close>

theorem mst_throws_on_triangle:
  "createGraph [((0, 0), (3, 0), (0, 4))] =
     \<lparr>nodes = [\<lparr>node_id = (0, 0)\<rparr>, \<lparr>node_id = (3, 0)\<rparr>, \<lparr>node_id = (0, 4)\<rparr>],
      links = [\<lparr>source = (0, 0), target = (3, 0), weight = 3\<rparr>,
               \<lparr>source = (3, 0), target = (0, 4), weight = 5\<rparr>,
               \<lparr>source = (0, 4), target = (0, 0), weight = 4\<rparr>]\<rparr> \<and>
   mst True (createGraph [((0, 0), (3, 0), (0, 4))]) = Some (Inl TypeError) \<and>
   mst False (createGraph [((0, 0), (3, 0), (0, 4))]) = Some (Inl TypeError)"
  by (simp add: createGraph_triangle mst_throws)

subsection \<open>The collinear fan of delaunayFromPoints\<close>

lemma fan_loop_stop: "n \<le> i \<Longrightarrow> fan_loop n i tgs = tgs"
  by (subst fan_loop.simps) simp

lemma fan_loop_full:
  assumes "j \<le> q" and "2 * int q + 1 \<le> n"
  shows "fan_loop n (2 * int j) tgs =
         fan_loop n (2 * int q)
           (tgs @ concat (map (\<lambda>j. [2 * int j, 2 * int j + 1, 2 * int j + 2]) [j..<q]))"
  using assms
proof (induction "q - j" arbitrary: j tgs)
  case 0
  then show ?case by simp
next
  case (Suc d)
  then have lt: "j < q" by simp
  with Suc.prems have "2 * int j + 2 < n" by simp
  then have step: "fan_loop n (2 * int j) tgs =
      fan_loop n (2 * int (Suc j)) (tgs @ [2 * int j, 2 * int j + 1, 2 * int j + 2])"
    by (subst fan_loop.simps) (simp add: Let_def algebra_simps)
  from Suc.hyps(2) lt have d: "d = q - Suc j" by simp
  from lt have le: "Suc j \<le> q" by simp
  from lt have upt: "[j..<q] = j # [Suc j..<q]" by (simp add: upt_conv_Cons)
  show ?case
    unfolding step Suc.hyps(1) [OF d le Suc.prems(2)] upt by simp
qed

lemma fan_loop_tail:
  assumes "n = 2 * int q + 1 \<or> n = 2 * int q + 2"
  shows "fan_loop n (2 * int q) tgs = tgs @ (if n mod 2 = 0 then [n - 2, n - 1, n - 3] else [])"
  using assms
proof
  assume n: "n = 2 * int q + 1"
  then have odd: "n mod 2 \<noteq> 0" by presburger
  with n show ?thesis
    by (subst fan_loop.simps) (simp add: Let_def fan_loop_stop)
next
  assume n: "n = 2 * int q + 2"
  then have even: "n mod 2 = 0" by presburger
  with n show ?thesis
    by (subst fan_loop.simps) (simp add: Let_def fan_loop_stop)
qed

lemma fan_loop_closed_form:
  assumes "1 \<le> n"
  shows "fan_loop (int n) 0 [] = fan_of n"
proof -
  let ?q = "(n - 1) div 2"
  from assms have cases: "int n = 2 * int ?q + 1 \<or> int n = 2 * int ?q + 2" by presburger
  then have le: "2 * int ?q + 1 \<le> int n" by linarith
  have ev: "(int n mod 2 = 0) = even n" by presburger
  from fan_loop_full [of 0 ?q "int n" "[]", OF _ le]
  have "fan_loop (int n) 0 [] = fan_loop (int n) (2 * int ?q)
      (concat (map (\<lambda>j. [2 * int j, 2 * int j + 1, 2 * int j + 2]) [0..<?q]))"
    by simp
  also have "\<dots> = fan_of n"
    unfolding fan_loop_tail [OF cases] fan_of_def ev by simp
  finally show ?thesis .
qed

lemma fan_of_in_range:
  assumes "3 \<le> n" and "t \<in> set (fan_of n)"
  shows "0 \<le> t \<and> t < int n"
proof -
  from assms(2) consider
      j where "j < (n - 1) div 2" "t \<in> {2 * int j, 2 * int j + 1, 2 * int j + 2}"
    | "even n" "t \<in> {int n - 2, int n - 1, int n - 3}"
    by (auto simp: fan_of_def split: if_splits)
  then show ?thesis
  proof cases
    case 1
    from 1(1) have "2 * int j + 2 < int n" by linarith
    with 1(2) show ?thesis by auto
  next
    case 2
    with assms(1) show ?thesis by auto
  qed
qed

text \<open>
  The index array of the collinear branch. For \<open>n \<ge> 3\<close> sites it holds the triples
  \<open>(i, i + 1, i + 2)\<close> for the even \<open>i\<close> with \<open>i + 2 < n\<close>, followed, when \<open>n\<close> is even,
  by the triple \<open>(n - 2, n - 1, n - 3)\<close> of the branch
  \<^verbatim>\<open>else if (siteLength % 2 == 0) tgs.push(i - 1)\<close>; every index lies in \<open>[0, n - 1]\<close>.
  Nothing is assumed of the sort but that it keeps the number of sites.
\<close>

theorem delaunayFromPoints_collinear_fan:
  assumes "isA2DLine sites" and "3 \<le> length sites"
    and "length (array_sort fan_compare sites) = length sites"
  shows "delaunayFromPoints isA2DLine array_sort delaunay_from sites =
           Fan (fan_of (length sites)) (array_sort fan_compare sites) \<and>
         (\<forall>t \<in> set (fan_of (length sites)). 0 \<le> t \<and> t < int (length sites))"
proof
  from assms(2) have "1 \<le> length sites" by simp
  from fan_loop_closed_form [OF this] assms(1,3)
  show "delaunayFromPoints isA2DLine array_sort delaunay_from sites =
           Fan (fan_of (length sites)) (array_sort fan_compare sites)"
    by (simp add: delaunayFromPoints_def Let_def)
  from fan_of_in_range [OF assms(2)]
  show "\<forall>t \<in> set (fan_of (length sites)). 0 \<le> t \<and> t < int (length sites)" by blast
qed

theorem delaunayFromPoints_collinear_fan_witness:
  "collinear_sites [(0, 0), (1, 1), (2, 2), (3, 3), (4, 4)] \<and>
   3 \<le> length [(0, 0), (1, 1), (2, 2), (3, 3), (4, 4) :: point] \<and>
   delaunayFromPoints collinear_sites insertion_sort (\<lambda>s. ()) [(0, 0), (1, 1), (2, 2), (3, 3), (4, 4)] =
     Fan [0, 1, 2, 2, 3, 4] [(0, 0), (1, 1), (2, 2), (3, 3), (4, 4)]"
  using delaunayFromPoints_collinear_fan
    [of collinear_sites "[(0, 0), (1, 1), (2, 2), (3, 3), (4, 4)]" insertion_sort "\<lambda>s. ()"]
  by (simp add: collinear_sites_def insertion_sort_def fan_compare_def fan_of_def upt_rec)

text \<open>
  Four collinear sites give the index array \<open>[0, 1, 2, 2, 3, 1]\<close>: the triple of an
  even count that closes the fan is \<open>(2, 3, 1)\<close>.
\<close>

lemma fan_even_count_last_triple:
  "collinear_sites [(0, 0), (1, 1), (2, 2), (3, 3)] \<and>
   delaunayFromPoints collinear_sites insertion_sort (\<lambda>s. ()) [(0, 0), (1, 1), (2, 2), (3, 3)] =
     Fan [0, 1, 2, 2, 3, 1] [(0, 0), (1, 1), (2, 2), (3, 3)] \<and>
   [2, 3, 1] \<noteq> [2, 2 + 1, 2 + 2 :: int]"
  by (simp add: collinear_sites_def delaunayFromPoints_def insertion_sort_def fan_compare_def
      fan_loop.simps Let_def)

text \<open>
  On a falling line the comparator answers "after" for both orders of any two sites:
  with \<open>a[0] < b[0]\<close> it falls through to \<open>a[1] - b[1]\<close>, which is positive there.
\<close>

lemma fan_compare_falling:
  assumes "fst a \<noteq> fst b" and "(fst a - fst b) * (snd a - snd b) < 0"
  shows "0 < fan_compare a b" and "0 < fan_compare b a"
proof -
  consider "fst a < fst b" | "fst b < fst a" using assms(1) by linarith
  then have "0 < fan_compare a b \<and> 0 < fan_compare b a"
  proof cases
    case 1
    then have "fst a - fst b < 0" by simp
    with assms(2) have "0 < snd a - snd b" by (simp add: mult_less_0_iff)
    with 1 show ?thesis by (simp add: fan_compare_def)
  next
    case 2
    then have "0 < fst a - fst b" by simp
    with assms(2) have "snd a - snd b < 0" by (simp add: mult_less_0_iff)
    with 2 show ?thesis by (simp add: fan_compare_def)
  qed
  then show "0 < fan_compare a b" and "0 < fan_compare b a" by simp_all
qed

text \<open>
  Claim C7 (the code departs from it). The comparator
  \<^verbatim>\<open>(a, b) => (a[0] > b[0] ? a[0] - b[0] : a[1] - b[1])\<close> sets out to order by x and then
  by y, but for \<open>a[0] < b[0]\<close> it compares the y coordinates. The three sites
  \<open>(2, 0), (1, 1), (0, 2)\<close> lie on the falling line \<open>x + y = 2\<close>; every comparison
  between two of them is positive, the sort moves nothing, and the points of the
  triangulation stay \<open>(2, 0), (1, 1), (0, 2)\<close>: they are not in lexicographic order,
  which is \<open>(0, 2), (1, 1), (2, 0)\<close>.
\<close>

theorem delaunayFromPoints_falling_line_unsorted:
  "collinear_sites [(2, 0), (1, 1), (0, 2)] \<and>
   delaunayFromPoints collinear_sites insertion_sort (\<lambda>s. ()) [(2, 0), (1, 1), (0, 2)] =
     Fan [0, 1, 2] [(2, 0), (1, 1), (0, 2)] \<and>
   0 < fan_compare (1, 1) (2, 0) \<and> 0 < fan_compare (2, 0) (1, 1) \<and>
   0 < fan_compare (0, 2) (1, 1) \<and> 0 < fan_compare (1, 1) (0, 2) \<and>
   0 < fan_compare (0, 2) (2, 0) \<and> 0 < fan_compare (2, 0) (0, 2) \<and>
   \<not> sorted_wrt (\<lambda>a b. fst a < fst b \<or> fst a = fst b \<and> snd a \<le> snd b)
       [(2, 0), (1, 1), (0, 2) :: point]"
  by (simp add: collinear_sites_def delaunayFromPoints_def insertion_sort_def fan_compare_def
      fan_loop.simps Let_def)

subsection \<open>concaveHull1\<close>

lemma boundary_filter_rectangle:
  "boundary_filter [(0, 1), (1, 2), (2, 0), (0, 2), (2, 3), (3, 0)] =
     [(0, 1), (1, 2), (0, 2), (0, 2), (2, 3), (0, 3)]"
  by (simp add: boundary_filter_def count_edge_def edge_sort_def decimal.simps Let_def)

lemma concaveHull1_while_rectangle:
  "concaveHull1_while [(0, 0), (3, 0), (3, 4), (0, 4)] [0, 1, 2, 0, 2, 3] (10 - 1 / 100) [] =
     Some (Inr [(0, 1), (1, 2), (2, 0), (0, 2), (2, 3), (3, 0)])"
proof -
  have "concaveHull1_while [(0, 0), (3, 0), (3, 4), (0, 4)] [0, 1, 2, 0, 2, 3] (10 - 1 / 100) [] =
      concaveHull1_while [(0, 0), (3, 0), (3, 4), (0, 4)] [0, 1, 2, 0, 2, 3] 10
        [(0, 1), (1, 2), (2, 0), (0, 2), (2, 3), (3, 0)]"
    by (subst concaveHull1_while.simps) (simp add: dist_345)
  also have "\<dots> = Some (Inr [(0, 1), (1, 2), (2, 0), (0, 2), (2, 3), (3, 0)])"
    by (subst concaveHull1_while.simps) simp
  finally show ?thesis .
qed

text \<open>
  Claim C5 (the code departs from it). The rectangle \<open>(0,0), (3,0), (3,4), (0,4)\<close>
  is triangulated by \<open>(0, 1, 2)\<close> and \<open>(0, 2, 3)\<close>, which share the diagonal
  \<open>0\<close>--\<open>2\<close>. With \<open>longEdge = 10\<close> all six edges pass the threshold, and the result
  keeps all of them: the shared diagonal is returned twice instead of being
  excluded, because every count is \<open>1\<close>.
\<close>

theorem concaveHull1_keeps_shared_edge:
  "concaveHull1 (\<lambda>sites. [0, 1, 2, 0, 2, 3]) [(0, 0), (3, 0), (3, 4), (0, 4)] 10 =
     Some (Inr [(0, 1), (1, 2), (0, 2), (0, 2), (2, 3), (0, 3)])"
  by (simp only: concaveHull1_def concaveHull1_while_rectangle boundary_filter_rectangle
      option.case sum.case)

subsection \<open>convexHull and the comparator of sortVerticies\<close>

lemma js_atan2_range: "- pi < js_atan2 y x \<and> js_atan2 y x \<le> pi"
proof -
  have a: "- (pi / 2) < arctan (y / x)" "arctan (y / x) < pi / 2"
    by (rule arctan_lbound, rule arctan_ubound)
  have neg: "arctan (y / x) \<le> 0" if "x < 0" "y \<ge> 0"
  proof -
    from that have "y / x \<le> 0" by (simp add: divide_nonneg_neg)
    then show ?thesis by (simp add: arctan_le_zero_iff)
  qed
  have pos: "0 < arctan (y / x)" if "x < 0" "y < 0"
  proof -
    from that have "0 < y / x" by (simp add: divide_neg_neg)
    then show ?thesis by (simp add: zero_less_arctan_iff)
  qed
  show ?thesis
    unfolding js_atan2_def using a neg pos pi_gt_zero by (auto; linarith)
qed

lemma polar_pos:
  assumes "0 < x"
  shows "x = sqrt (x\<^sup>2 + y\<^sup>2) * cos (arctan (y / x))"
    and "y = sqrt (x\<^sup>2 + y\<^sup>2) * sin (arctan (y / x))"
proof -
  have r: "sqrt (x\<^sup>2 + y\<^sup>2) = x * sqrt (1 + (y / x)\<^sup>2)"
  proof -
    have "x\<^sup>2 + y\<^sup>2 = x\<^sup>2 * (1 + (y / x)\<^sup>2)" using assms by (simp add: field_simps power2_eq_square)
    then have "sqrt (x\<^sup>2 + y\<^sup>2) = sqrt (x\<^sup>2) * sqrt (1 + (y / x)\<^sup>2)" by (simp add: real_sqrt_mult)
    with assms show ?thesis by simp
  qed
  have p: "0 < sqrt (1 + (y / x)\<^sup>2)" by (simp add: add_pos_nonneg)
  show "x = sqrt (x\<^sup>2 + y\<^sup>2) * cos (arctan (y / x))"
    unfolding r cos_arctan using p by simp
  show "y = sqrt (x\<^sup>2 + y\<^sup>2) * sin (arctan (y / x))"
    unfolding r sin_arctan using p assms by simp
qed

lemma js_atan2_polar:
  "x = sqrt (x\<^sup>2 + y\<^sup>2) * cos (js_atan2 y x) \<and> y = sqrt (x\<^sup>2 + y\<^sup>2) * sin (js_atan2 y x)"
proof -
  consider "0 < x" | "x < 0" | "x = 0"  by linarith
  then show ?thesis
  proof cases
    case 1
    with polar_pos [OF 1, of y] show ?thesis by (simp add: js_atan2_def)
  next
    case 2
    then have "0 < - x" by simp
    note pp = polar_pos [OF this, of "- y"]
    have q: "- y / - x = y / x" "(- x)\<^sup>2 = x\<^sup>2" "(- y)\<^sup>2 = y\<^sup>2" by simp_all
    have a: "- x = sqrt (x\<^sup>2 + y\<^sup>2) * cos (arctan (y / x))"
      using pp(1) unfolding q .
    have b: "- y = sqrt (x\<^sup>2 + y\<^sup>2) * sin (arctan (y / x))"
      using pp(2) unfolding q .
    have a': "x = sqrt (x\<^sup>2 + y\<^sup>2) * (- cos (arctan (y / x)))"
      using a by (simp only: mult_minus_right)
    have b': "y = sqrt (x\<^sup>2 + y\<^sup>2) * (- sin (arctan (y / x)))"
      using b by (simp only: mult_minus_right)
    have "js_atan2 y x = arctan (y / x) + pi \<or> js_atan2 y x = arctan (y / x) - pi"
      using 2 by (simp add: js_atan2_def)
    then show ?thesis
    proof
      assume e: "js_atan2 y x = arctan (y / x) + pi"
      show ?thesis unfolding e cos_periodic_pi sin_periodic_pi using a' b' by blast
    next
      assume e: "js_atan2 y x = arctan (y / x) - pi"
      have c: "cos (arctan (y / x) - pi) = - cos (arctan (y / x))" by (simp add: cos_diff)
      have d: "sin (arctan (y / x) - pi) = - sin (arctan (y / x))" by (simp add: sin_diff)
      show ?thesis unfolding e c d using a' b' by blast
    qed
  next
    case 3
    then show ?thesis by (simp add: js_atan2_def)
  qed
qed


lemma js_round_sign:
  "(js_round d < 0 \<longrightarrow> d < 0) \<and> (0 < js_round d \<longrightarrow> 0 < d)"
proof -
  have "d < 0" if "js_round d < 0"
  proof -
    from that have "\<lfloor>d + 1 / 2\<rfloor> < 0" by (simp add: js_round_def)
    then have "d + 1 / 2 < 0" by linarith
    then show ?thesis by simp
  qed
  moreover have "0 < d" if "0 < js_round d"
  proof -
    from that have "0 < \<lfloor>d + 1 / 2\<rfloor>" by (simp add: js_round_def)
    then have "1 \<le> d + 1 / 2" by linarith
    then show ?thesis by simp
  qed
  ultimately show ?thesis by blast
qed

lemma toDegrees_bounds:
  assumes "- pi < a" and "a \<le> pi"
  shows "\<exists>t. toDegrees a = t * 180 \<and> - 1 < t \<and> t \<le> 1 \<and> (t < 0) = (a < 0)"
proof -
  define t where "t = a / pi"
  have "toDegrees a = t * 180" by (simp add: toDegrees_def t_def)
  moreover have "- 1 < t" using assms(1) pi_gt_zero by (simp add: field_simps t_def)
  moreover have "t \<le> 1" using assms(2) pi_gt_zero by (simp add: field_simps t_def)
  moreover have "(t < 0) = (a < 0)" using pi_gt_zero by (simp add: t_def divide_less_0_iff)
  ultimately show ?thesis by blast
qed

lemma vertex_angle_cases:
  fixes c p :: point
  defines "a \<equiv> js_atan2 (fst p - fst c) (snd p - snd c)"
  shows "(a < 0 \<longrightarrow> vertex_angle c p = toDegrees a + 360) \<and>
         (0 \<le> a \<longrightarrow> vertex_angle c p = toDegrees a)"
proof -
  have r: "- pi < a" "a \<le> pi" unfolding a_def using js_atan2_range by blast+
  from toDegrees_bounds [OF r] obtain t
    where t: "toDegrees a = t * 180" "- 1 < t" "t \<le> 1" "(t < 0) = (a < 0)" by blast
  have q: "(toDegrees a + 360) / 360 = t / 2 + 1" unfolding t(1) by simp
  show ?thesis
  proof (intro conjI impI)
    assume n: "a < 0"
    then have "t < 0" using t(4) by simp
    with t(2) have "0 \<le> t / 2 + 1" "t / 2 + 1 < 1" by linarith+
    then have "\<lfloor>t / 2 + 1\<rfloor> = 0" "0 \<le> t / 2 + 1" by linarith+
    then show "vertex_angle c p = toDegrees a + 360"
      unfolding vertex_angle_def js_rem_def a_def [symmetric] q by simp
  next
    assume n: "0 \<le> a"
    then have "0 \<le> t" using t(4) by simp
    with t(3) have "1 \<le> t / 2 + 1" "t / 2 + 1 < 2" by linarith+
    then have "\<lfloor>t / 2 + 1\<rfloor> = 1" "0 \<le> t / 2 + 1" by linarith+
    then show "vertex_angle c p = toDegrees a"
      unfolding vertex_angle_def js_rem_def a_def [symmetric] q by simp
  qed
qed

lemma vertex_angle_direction:
  fixes c p :: point
  defines "r \<equiv> sqrt ((fst p - fst c)\<^sup>2 + (snd p - snd c)\<^sup>2)"
  shows "0 \<le> vertex_angle c p \<and> vertex_angle c p < 360 \<and>
         fst p - fst c = r * sin (vertex_angle c p * (pi / 180)) \<and>
         snd p - snd c = r * cos (vertex_angle c p * (pi / 180))"
proof -
  define a where "a = js_atan2 (fst p - fst c) (snd p - snd c)"
  have rg: "- pi < a" "a \<le> pi" unfolding a_def using js_atan2_range by blast+
  have pol: "snd p - snd c = r * cos a" "fst p - fst c = r * sin a"
    using js_atan2_polar [of "snd p - snd c" "fst p - fst c"]
    unfolding a_def r_def by (simp_all add: add.commute)
  have d: "toDegrees a * (pi / 180) = a" by (simp add: toDegrees_def)
  from toDegrees_bounds [OF rg] obtain t
    where t: "toDegrees a = t * 180" "- 1 < t" "t \<le> 1" "(t < 0) = (a < 0)" by blast
  note vc = vertex_angle_cases [of p c, folded a_def]
  show ?thesis
  proof (cases "a < 0")
    case True
    then have v: "vertex_angle c p = toDegrees a + 360" using vc by simp
    have e: "(toDegrees a + 360) * (pi / 180) = a + 2 * pi"
      using d by (simp add: algebra_simps)
    have "0 \<le> toDegrees a + 360" "toDegrees a + 360 < 360"
      unfolding t(1) using t(2) t(4) True by linarith+
    then show ?thesis unfolding v e using pol by simp
  next
    case False
    then have v: "vertex_angle c p = toDegrees a" using vc by simp
    have "0 \<le> toDegrees a" "toDegrees a < 360"
      unfolding t(1) using t(3) t(4) False by linarith+
    then show ?thesis unfolding v d using pol by simp
  qed
qed

lemma vertex_compare_sign:
  "(vertex_compare c p q < 0 \<longrightarrow> vertex_angle c p < vertex_angle c q) \<and>
   (0 < vertex_compare c p q \<longrightarrow> vertex_angle c q < vertex_angle c p)"
  using js_round_sign [of "vertex_angle c p - vertex_angle c q"]
  by (simp add: vertex_compare_def)

lemma js_atan2_diagonal:
  "js_atan2 (1 / 2) (1 / 2) = pi / 4"
  "js_atan2 (1 / 2) (- (1 / 2)) = 3 * pi / 4"
  "js_atan2 (- (1 / 2)) (- (1 / 2)) = - (3 * pi / 4)"
  "js_atan2 (- (1 / 2)) (1 / 2) = - (pi / 4)"
  by (simp_all add: js_atan2_def arctan_one arctan_minus)

lemma toDegrees_diagonal:
  "toDegrees (pi / 4) = 45"
  "toDegrees (3 * pi / 4) = 135"
  "toDegrees (- (3 * pi / 4)) = - 135"
  "toDegrees (- (pi / 4)) = - 45"
  by (simp_all add: toDegrees_def)

lemma vertex_angle_square:
  "vertex_angle (1 / 2, 1 / 2) (0, 0) = 225"
  "vertex_angle (1 / 2, 1 / 2) (1, 0) = 135"
  "vertex_angle (1 / 2, 1 / 2) (1, 1) = 45"
  "vertex_angle (1 / 2, 1 / 2) (0, 1) = 315"
  by (simp_all add: vertex_angle_def js_atan2_diagonal toDegrees_diagonal js_rem_def)

text \<open>
  Collinear sites are returned as they are. Otherwise, when the cells of
  \<^verbatim>\<open>alphaShape(0, sites)\<close> hold indices of sites, the result is the list of the sites at
  these indices, each index once, as the sort leaves it under the comparator
  \<^verbatim>\<open>Math.round(a1 - a2)\<close>.
\<close>

lemma convexHull_collinear:
  "isA2DLine sites \<Longrightarrow> convexHull isA2DLine alphaShape array_sort sites = Inr sites"
  by (simp add: convexHull_def)

lemma convexHull_vertices:
  assumes "\<not> isA2DLine sites"
    and "\<forall>item \<in> set (concat (alphaShape 0 sites)). item < length sites"
  shows "convexHull isA2DLine alphaShape array_sort sites =
      Inr (array_sort
            (vertex_compare
              (findCentroid (map (\<lambda>item. sites ! item) (uniq (concat (alphaShape 0 sites))))))
            (map (\<lambda>item. sites ! item) (uniq (concat (alphaShape 0 sites)))))"
proof -
  have "set (uniq (concat (alphaShape 0 sites))) = set (concat (alphaShape 0 sites))"
    by (simp add: uniq_def)
  with assms(2) have "list_all (\<lambda>item. item < length sites) (uniq (concat (alphaShape 0 sites)))"
    unfolding list_all_iff by blast
  with assms(1) show ?thesis
    by (simp add: convexHull_def sortVerticies_def Let_def)
qed

text \<open>
  The unit square with its four sides as the cells: the angles of the corners around
  the centroid \<open>(1/2, 1/2)\<close> are \<open>225\<close>, \<open>135\<close>, \<open>45\<close> and \<open>315\<close> degrees, and the corners
  come back by increasing angle.
\<close>

lemma convexHull_square:
  "convexHull collinear_sites (\<lambda>alpha sites. [[0, 1], [1, 2], [2, 3], [3, 0]]) insertion_sort
     [(0, 0), (1, 0), (1, 1), (0, 1)] = Inr [(1, 1), (1, 0), (0, 0), (0, 1)]"
  by (simp add: convexHull_def collinear_sites_def uniq_def sortVerticies_def findCentroid_def
      insertion_sort_def vertex_compare_def vertex_angle_square js_round_def Let_def)

end
